theory Spec2Isabelle
  imports Main "HOL-Library.AList"
begin

section \<open>Data model of \<open>src/main.py\<close>\<close>

text \<open>
  The program is a FastAPI application with two module-level globals (\<open>client\<close>,
  \<open>file_search_store\<close>), one environment variable (\<open>GEMINI_API_KEY\<close>) and an upload
  directory \<open>uploads\<close> below its working directory. Everything else is an external
  collaborator: the \<open>google.genai\<close> client library with the remote service behind it, the
  operating system (environment, files) and the clock. The request handlers are embedded
  as functions from a state to a result and a new state; what the collaborators answer is
  a parameter (\<open>world\<close>). File names are resolved as on a POSIX system.
\<close>

type_synonym bytes = string

text \<open>A Python exception in flight: FastAPI's \<open>HTTPException(status_code, detail)\<close>, or
  any other exception, of which the handlers only use \<open>str(e)\<close>.\<close>

datatype exn = HTTPException nat string | Error string

text \<open>\<open>genai.Client(api_key=k)\<close>: the object keeps the key it was built from.\<close>

datatype client = Client string

text \<open>The object returned by \<open>file_search_stores.create\<close>; the program reads \<open>.name\<close>.\<close>

datatype store = Store (store_name: string)

text \<open>The long-running operation returned by the ingestion call and by
  \<open>operations.get\<close>; the program reads \<open>.done\<close> and hands the whole object back to
  \<open>operations.get\<close>. \<open>op_rest\<close> stands for the part of the object the program never reads.\<close>

record operation =
  op_name :: string
  op_done :: bool
  op_rest :: nat

text \<open>An \<open>UploadFile\<close> of the multipart request: its \<open>filename\<close> and the bytes
  \<open>await file.read()\<close> returns.\<close>

record upload_file =
  filename :: string
  content :: bytes

text \<open>The file system: every existing file or directory by its absolute path, given as
  the list of its components from the root (the root itself, \<open>[]\<close>, always exists). A
  regular file has its bytes and its modification time.\<close>

type_synonym path = "string list"

datatype node = RegFile bytes int | Dir

text \<open>One element of the list \<open>/files\<close> returns: \<open>filename\<close>, \<open>size\<close> and
  \<open>uploaded_at\<close> (the modification time; its rendering by \<open>time.ctime\<close> is left out).\<close>

type_synonym file_info = "string \<times> nat \<times> int"

text \<open>The calls that leave the process, in the order they are made: the four remote calls
  of the program and \<open>time.sleep\<close>.\<close>

datatype event =
    CreateStore client string
  | UploadToStore client string string string
  | Sleep nat
  | OperationsGet client operation
  | GenerateContent client string string "string list"

text \<open>The bodies of the 200 responses.\<close>

datatype response =
    ApiKeySet string
  | Uploaded nat string
  | FileList "file_info list"
  | ChatReply "string option"

text \<open>
  The collaborators. Each field is what the collaborator answers to one call; \<open>Inl msg\<close>
  and \<open>Some msg\<close> mean that the call raises an exception whose \<open>str\<close> is \<open>msg\<close>.
  \<^item> \<open>client_error k\<close>: \<open>genai.Client(api_key=k)\<close> raises;
  \<^item> \<open>setenv_error k\<close>: \<open>os.environ["GEMINI_API_KEY"] = k\<close> raises (Python does for a
    value with an embedded NUL) and leaves the variable as it was;
  \<^item> \<open>open_error n\<close>: \<open>open\<close> or \<open>write\<close> refuses the file of name \<open>n\<close> whatever the
    file system holds (an embedded NUL, a component that is too long, no permission);
  \<^item> \<open>create_store c display_name\<close>, \<open>upload_to_file_search_store c path data store
    display_name\<close> (\<open>data\<close> is what the library reads from \<open>path\<close>),
    \<open>operations_get c op\<close>, \<open>generate_content c model contents stores\<close>: the remote calls;
  \<^item> \<open>clock_step op\<close>: by how much the reading of \<open>time.time()\<close> has changed after
    \<open>time.sleep(2)\<close> and \<open>operations.get(op)\<close>. It is at least 2 when the wall clock
    runs forward, and can be anything, also negative, when the clock is set meanwhile.
\<close>

record world =
  client_error :: "string \<Rightarrow> string option"
  setenv_error :: "string \<Rightarrow> string option"
  open_error :: "string \<Rightarrow> string option"
  create_store :: "client \<Rightarrow> string \<Rightarrow> string + store"
  upload_to_file_search_store :: "client \<Rightarrow> string \<Rightarrow> bytes \<Rightarrow> string \<Rightarrow> string \<Rightarrow> string + operation"
  operations_get :: "client \<Rightarrow> operation \<Rightarrow> string + operation"
  clock_step :: "operation \<Rightarrow> int"
  generate_content :: "client \<Rightarrow> string \<Rightarrow> string \<Rightarrow> string list \<Rightarrow> string + string option"

text \<open>
  The state of the process and of what it touches: the environment variable, the two
  globals, the working directory of the process, the file system, the reading of the
  clock (in whole time units) and the calls made so far.
\<close>

record state =
  env_api_key :: "string option"
  client :: "client option"
  file_search_store :: "store option"
  cwd :: path
  disk :: "(path \<times> node) list"
  now :: int
  trace :: "event list"

section \<open>The helpers \<open>get_client\<close> and \<open>get_file_search_store\<close>\<close>

definition missing_key :: exn where
  "missing_key = HTTPException 400
     ''GEMINI_API_KEY not set. Please set it via /set-api-key endpoint or environment variable''"

text \<open>\<open>os.getenv\<close> gives \<open>None\<close> or the string; \<open>not api_key\<close> holds for both \<open>None\<close> and
  the empty string.\<close>

definition get_client :: "world \<Rightarrow> state \<Rightarrow> (exn + client) \<times> state" where
  "get_client w s =
     (case client s of
        Some c \<Rightarrow> (Inr c, s)
      | None \<Rightarrow>
          (case env_api_key s of
             None \<Rightarrow> (Inl missing_key, s)
           | Some k \<Rightarrow>
               if k = [] then (Inl missing_key, s)
               else (case client_error w k of
                       Some msg \<Rightarrow> (Inl (Error msg), s)
                     | None \<Rightarrow> (Inr (Client k), s\<lparr>client := Some (Client k)\<rparr>))))"

definition get_file_search_store :: "world \<Rightarrow> state \<Rightarrow> (exn + store) \<times> state" where
  "get_file_search_store w s =
     (case file_search_store s of
        Some st \<Rightarrow> (Inr st, s)
      | None \<Rightarrow>
          (case get_client w s of
             (Inl e, s1) \<Rightarrow> (Inl e, s1)
           | (Inr c, s1) \<Rightarrow>
               (let s2 = s1\<lparr>trace := trace s1 @ [CreateStore c ''demo-file-search-store'']\<rparr>
                in case create_store w c ''demo-file-search-store'' of
                     Inl msg \<Rightarrow> (Inl (Error msg), s2)
                   | Inr st \<Rightarrow> (Inr st, s2\<lparr>file_search_store := Some st\<rparr>))))"

section \<open>\<open>POST /set-api-key\<close>\<close>

text \<open>Everything is inside one \<open>try\<close>; \<open>except Exception as e\<close> turns any exception into
  \<open>HTTPException(400, str(e))\<close>. The globals are reset first, then the variable is
  written, then a client is built and dropped.\<close>

definition set_api_key :: "world \<Rightarrow> string \<Rightarrow> state \<Rightarrow> (exn + response) \<times> state" where
  "set_api_key w k s =
     (let s1 = s\<lparr>client := None, file_search_store := None\<rparr>
      in case setenv_error w k of
           Some msg \<Rightarrow> (Inl (HTTPException 400 msg), s1)
         | None \<Rightarrow>
             (let s2 = s1\<lparr>env_api_key := Some k\<rparr>
              in case client_error w k of
                   Some msg \<Rightarrow> (Inl (HTTPException 400 msg), s2)
                 | None \<Rightarrow> (Inr (ApiKeySet ''API key set successfully''), s2)))"

section \<open>Paths\<close>

text \<open>
  \<open>file_path = UPLOAD_DIR / file.filename\<close> with \<open>UPLOAD_DIR = Path("uploads")\<close>. The name
  is cut at every \<open>/\<close>; \<open>pathlib\<close> drops empty components and \<open>.\<close> and keeps \<open>..\<close>; a name
  that starts with \<open>/\<close> replaces \<open>uploads\<close> altogether. \<open>path_str\<close> is \<open>str(file_path)\<close>.
\<close>

fun split_path :: "string \<Rightarrow> string list" where
  "split_path [] = [[]]"
| "split_path (ch # cs) =
     (if ch = CHR ''/'' then [] # split_path cs
      else (case split_path cs of [] \<Rightarrow> [[ch]] | p # ps \<Rightarrow> (ch # p) # ps))"

definition parts :: "string \<Rightarrow> string list" where
  "parts nm = filter (\<lambda>p. p \<noteq> [] \<and> p \<noteq> ''.'') (split_path nm)"

fun absolute :: "string \<Rightarrow> bool" where
  "absolute [] = False"
| "absolute (ch # cs) = (ch = CHR ''/'')"

fun join_path :: "string list \<Rightarrow> string" where
  "join_path [] = []"
| "join_path [p] = p"
| "join_path (p # ps) = p @ ''/'' @ join_path ps"

definition path_str :: "string \<Rightarrow> string" where
  "path_str nm =
     (if absolute nm then ''/'' @ join_path (parts nm) else join_path (''uploads'' # parts nm))"

definition upload_dir :: "state \<Rightarrow> path" where
  "upload_dir s = cwd s @ [''uploads'']"

text \<open>
  The system looks the path up component by component: what has been reached so far must
  be a directory before the next component is taken, and \<open>..\<close> leads to the parent (the
  root is its own parent). The result is the absolute path of what the name denotes,
  which may not exist yet.
\<close>

definition is_dir :: "(path \<times> node) list \<Rightarrow> path \<Rightarrow> bool" where
  "is_dir d p = (p = [] \<or> map_of d p = Some Dir)"

definition os_error :: "string \<Rightarrow> string \<Rightarrow> exn" where
  "os_error what p = Error (what @ '': '' @ [CHR 0x27] @ p @ [CHR 0x27])"

fun walk :: "(path \<times> node) list \<Rightarrow> string \<Rightarrow> path \<Rightarrow> string list \<Rightarrow> exn + path" where
  "walk d pstr cur [] = Inr cur"
| "walk d pstr cur (p # ps) =
     (if is_dir d cur then walk d pstr (if p = ''..'' then butlast cur else cur @ [p]) ps
      else if map_of d cur = None then Inl (os_error ''[Errno 2] No such file or directory'' pstr)
      else Inl (os_error ''[Errno 20] Not a directory'' pstr))"

definition lookup :: "state \<Rightarrow> string \<Rightarrow> exn + path" where
  "lookup s nm =
     walk (disk s) (path_str nm) (if absolute nm then [] else upload_dir s) (parts nm)"

section \<open>\<open>POST /upload\<close>\<close>

text \<open>\<open>open(file_path, "wb")\<close> followed by \<open>f.write(content)\<close>: what the path denotes
  becomes a regular file with the new bytes, stamped with the current time, whether it
  existed or not and wherever it lies. Opening fails when the path cannot be looked up
  and when it denotes a directory.\<close>

definition write_file :: "world \<Rightarrow> upload_file \<Rightarrow> state \<Rightarrow> exn + state" where
  "write_file w f s =
     (case open_error w (filename f) of
        Some msg \<Rightarrow> Inl (Error msg)
      | None \<Rightarrow>
          (case lookup s (filename f) of
             Inl e \<Rightarrow> Inl e
           | Inr p \<Rightarrow>
               if is_dir (disk s) p
               then Inl (os_error ''[Errno 21] Is a directory'' (path_str (filename f)))
               else Inr (s\<lparr>disk := AList.update p (RegFile (content f) (now s)) (disk s)\<rparr>)))"

text \<open>The wait loop, entered with \<open>start = time.time()\<close>:
  \<^verbatim>\<open>
  while not operation.done:
      if time.time() - start_time > timeout: raise HTTPException(408, ...)
      time.sleep(2)
      operation = client.operations.get(operation)
  \<close>
  Nothing in the loop bounds the number of rounds but the clock, so the loop need not
  return: it is a partial function, and \<open>None\<close> is the run that never ends.\<close>

partial_function (option) wait_for_import ::
  "world \<Rightarrow> client \<Rightarrow> string \<Rightarrow> int \<Rightarrow> operation \<Rightarrow> state \<Rightarrow> ((exn + operation) \<times> state) option"
where
  "wait_for_import w c fname start opn s =
     (if op_done opn then Some (Inr opn, s)
      else if now s - start > 60 then
        Some (Inl (HTTPException 408 (''Timeout importing '' @ fname)), s)
      else
        (case operations_get w c opn of
           Inl msg \<Rightarrow>
             Some (Inl (Error msg),
                   s\<lparr>now := now s + clock_step w opn,
                     trace := trace s @ [Sleep 2, OperationsGet c opn]\<rparr>)
         | Inr opn' \<Rightarrow>
             wait_for_import w c fname start opn'
               (s\<lparr>now := now s + clock_step w opn,
                  trace := trace s @ [Sleep 2, OperationsGet c opn]\<rparr>)))"

declare wait_for_import.simps [code]

text \<open>The body of \<open>for file in files\<close>, with \<open>uploaded_count\<close> as accumulator: write the
  file, submit it, wait, count. Any exception leaves the loop.\<close>

fun import_files ::
  "world \<Rightarrow> client \<Rightarrow> store \<Rightarrow> upload_file list \<Rightarrow> nat \<Rightarrow> state \<Rightarrow> ((exn + nat) \<times> state) option"
where
  "import_files w c st [] uploaded_count s = Some (Inr uploaded_count, s)"
| "import_files w c st (f # fs) uploaded_count s =
     (case write_file w f s of
        Inl e \<Rightarrow> Some (Inl e, s)
      | Inr s1 \<Rightarrow>
          (let path = path_str (filename f);
               s2 = s1\<lparr>trace := trace s1 @ [UploadToStore c path (store_name st) (filename f)]\<rparr>
           in case upload_to_file_search_store w c path (content f) (store_name st) (filename f) of
                Inl msg \<Rightarrow> Some (Inl (Error msg), s2)
              | Inr opn \<Rightarrow>
                  (case wait_for_import w c (filename f) (now s2) opn s2 of
                     None \<Rightarrow> None
                   | Some (Inl e, s3) \<Rightarrow> Some (Inl e, s3)
                   | Some (Inr opn', s3) \<Rightarrow> import_files w c st fs (uploaded_count + 1) s3)))"

text \<open>\<open>except HTTPException: raise\<close> and \<open>except Exception as e: raise
  HTTPException(500, str(e))\<close>, the tail of \<open>upload_files\<close>, \<open>list_files\<close> and \<open>chat\<close>.\<close>

fun reraise :: "exn \<Rightarrow> exn" where
  "reraise (HTTPException code detail) = HTTPException code detail"
| "reraise (Error msg) = HTTPException 500 msg"

text \<open>Python's \<open>str\<close> of a non-negative integer, for the response message.\<close>

function str_nat :: "nat \<Rightarrow> string" where
  "str_nat n =
     (if n < 10 then [''0123456789'' ! n]
      else str_nat (n div 10) @ [''0123456789'' ! (n mod 10)])"
  by pat_completeness auto
termination
  by (relation "measure id") auto

declare str_nat.simps [simp del]

definition upload_files ::
  "world \<Rightarrow> upload_file list \<Rightarrow> state \<Rightarrow> ((exn + response) \<times> state) option" where
  "upload_files w files s =
     (if files = [] then Some (Inl (HTTPException 400 ''No files provided''), s)
      else
        (case get_client w s of
           (Inl e, s1) \<Rightarrow> Some (Inl (reraise e), s1)
         | (Inr c, s1) \<Rightarrow>
             (case get_file_search_store w s1 of
                (Inl e, s2) \<Rightarrow> Some (Inl (reraise e), s2)
              | (Inr st, s2) \<Rightarrow>
                  (case import_files w c st files 0 s2 of
                     None \<Rightarrow> None
                   | Some (Inl e, s3) \<Rightarrow> Some (Inl (reraise e), s3)
                   | Some (Inr uploaded_count, s3) \<Rightarrow>
                       Some (Inr (Uploaded uploaded_count
                              (''Successfully uploaded '' @ str_nat uploaded_count @ '' file(s)'')),
                             s3)))))"

section \<open>\<open>GET /files\<close>\<close>

text \<open>\<open>UPLOAD_DIR.iterdir()\<close> gives what lies directly inside the upload directory, in the
  order of the file system; the handler keeps those for which \<open>is_file()\<close> holds and
  reports \<open>file_path.name\<close>, the size in bytes and the modification time. When the upload
  directory is not there, \<open>iterdir\<close> raises and the handler answers 500.\<close>

fun iterdir :: "(path \<times> node) list \<Rightarrow> path \<Rightarrow> (string \<times> node) list" where
  "iterdir [] dir = []"
| "iterdir ((p, e) # d) dir =
     (if p \<noteq> [] \<and> butlast p = dir then (last p, e) # iterdir d dir else iterdir d dir)"

definition uploads :: "state \<Rightarrow> (string \<times> node) list" where
  "uploads s = iterdir (disk s) (upload_dir s)"

fun file_infos :: "(string \<times> node) list \<Rightarrow> file_info list" where
  "file_infos [] = []"
| "file_infos ((n, RegFile data mtime) # es) = (n, length data, mtime) # file_infos es"
| "file_infos ((n, Dir) # es) = file_infos es"

definition listing :: "state \<Rightarrow> file_info list" where
  "listing s = file_infos (uploads s)"

definition list_files :: "state \<Rightarrow> exn + file_info list" where
  "list_files s =
     (if is_dir (disk s) (upload_dir s) then Inr (listing s)
      else if map_of (disk s) (upload_dir s) = None
      then Inl (reraise (os_error ''[Errno 2] No such file or directory'' ''uploads''))
      else Inl (reraise (os_error ''[Errno 20] Not a directory'' ''uploads'')))"

section \<open>\<open>POST /chat\<close>\<close>

definition chat :: "world \<Rightarrow> string \<Rightarrow> state \<Rightarrow> (exn + response) \<times> state" where
  "chat w msg s =
     (case get_client w s of
        (Inl e, s1) \<Rightarrow> (Inl (reraise e), s1)
      | (Inr c, s1) \<Rightarrow>
          (case get_file_search_store w s1 of
             (Inl e, s2) \<Rightarrow> (Inl (reraise e), s2)
           | (Inr st, s2) \<Rightarrow>
               (let s3 = s2\<lparr>trace := trace s2 @
                              [GenerateContent c ''gemini-2.5-flash'' msg [store_name st]]\<rparr>
                in case generate_content w c ''gemini-2.5-flash'' msg [store_name st] of
                     Inl err \<Rightarrow> (Inl (reraise (Error err)), s3)
                   | Inr text \<Rightarrow> (Inr (ChatReply text), s3))))"

section \<open>Requests in sequence\<close>

text \<open>The handlers are \<open>async\<close> functions that never yield while they work (\<open>time.sleep\<close>
  blocks), so requests are served one after the other; a request that never returns
  leaves no state for a later one.\<close>

datatype request = SetApiKey string | Upload "upload_file list" | ListFiles | Chat string

fun serve :: "world \<Rightarrow> request \<Rightarrow> state \<Rightarrow> ((exn + response) \<times> state) option" where
  "serve w (SetApiKey k) s = Some (set_api_key w k s)"
| "serve w (Upload files) s = upload_files w files s"
| "serve w ListFiles s =
     Some (case list_files s of Inl e \<Rightarrow> Inl e | Inr infos \<Rightarrow> Inr (FileList infos), s)"
| "serve w (Chat msg) s = Some (chat w msg s)"

fun run :: "world \<Rightarrow> request list \<Rightarrow> state \<Rightarrow> state option" where
  "run w [] s = Some s"
| "run w (r # rs) s = (case serve w r s of None \<Rightarrow> None | Some (res, s') \<Rightarrow> run w rs s')"

section \<open>Vocabulary of the properties\<close>

text \<open>The operation object after \<open>n\<close> status calls, the change of the clock reading from
  the submission to the return of the \<open>n\<close>-th status call, and the calls of \<open>n\<close> rounds of
  the wait loop: a sleep of 2, then the status call.\<close>

fun refetch :: "world \<Rightarrow> client \<Rightarrow> nat \<Rightarrow> operation \<Rightarrow> string + operation" where
  "refetch w c 0 opn = Inr opn"
| "refetch w c (Suc n) opn =
     (case operations_get w c opn of Inl msg \<Rightarrow> Inl msg | Inr opn' \<Rightarrow> refetch w c n opn')"

fun fetch_time :: "world \<Rightarrow> client \<Rightarrow> nat \<Rightarrow> operation \<Rightarrow> int" where
  "fetch_time w c 0 opn = 0"
| "fetch_time w c (Suc n) opn =
     clock_step w opn +
     (case operations_get w c opn of Inl msg \<Rightarrow> 0 | Inr opn' \<Rightarrow> fetch_time w c n opn')"

fun polls :: "world \<Rightarrow> client \<Rightarrow> nat \<Rightarrow> operation \<Rightarrow> event list" where
  "polls w c 0 opn = []"
| "polls w c (Suc n) opn =
     Sleep 2 # OperationsGet c opn #
     (case operations_get w c opn of Inl msg \<Rightarrow> [] | Inr opn' \<Rightarrow> polls w c n opn')"

fun reports_done :: "string + operation \<Rightarrow> bool" where
  "reports_done (Inr opn) = op_done opn"
| "reports_done (Inl msg) = False"

fun reports_pending :: "string + operation \<Rightarrow> bool" where
  "reports_pending (Inr opn) = (\<not> op_done opn)"
| "reports_pending (Inl msg) = False"

text \<open>
  The loop gets as far as its \<open>k\<close>-th status call when the submission and every earlier
  status call showed the operation not done while the elapsed time read there was at
  most 60. An operation completes in time when the loop gets as far as a status call (or
  the submission) that shows it done. It is pending past the deadline when the loop gets
  as far as one that shows it not done with more than 60 elapsed. The wall clock is
  steady when no round of the loop sees it advance by less than the 2 units slept.
\<close>

definition waits :: "world \<Rightarrow> client \<Rightarrow> nat \<Rightarrow> operation \<Rightarrow> bool" where
  "waits w c k opn =
     (\<forall>n<k. reports_pending (refetch w c n opn) \<and> fetch_time w c n opn \<le> 60)"

definition completes_in_time :: "world \<Rightarrow> client \<Rightarrow> operation \<Rightarrow> bool" where
  "completes_in_time w c opn = (\<exists>k. waits w c k opn \<and> reports_done (refetch w c k opn))"

definition pending_past_deadline :: "world \<Rightarrow> client \<Rightarrow> operation \<Rightarrow> bool" where
  "pending_past_deadline w c opn =
     (\<exists>k. waits w c k opn \<and> reports_pending (refetch w c k opn) \<and> 60 < fetch_time w c k opn)"

definition steady :: "world \<Rightarrow> bool" where
  "steady w = (\<forall>opn. 2 \<le> clock_step w opn)"

text \<open>
  A plain file name is a single path component that names neither the directory itself
  nor its parent. The ingestion call the program makes for a file, and what can happen to
  a file of the batch: its local copy can be written into the upload directory under its
  own name; its ingestion completes in time; its ingestion is pending past the deadline.
\<close>

definition plain :: "string \<Rightarrow> bool" where
  "plain nm = (nm \<noteq> [] \<and> nm \<noteq> ''.'' \<and> nm \<noteq> ''..'' \<and> CHR ''/'' \<notin> set nm)"

definition submit :: "world \<Rightarrow> client \<Rightarrow> store \<Rightarrow> upload_file \<Rightarrow> string + operation" where
  "submit w c st f =
     upload_to_file_search_store w c (path_str (filename f)) (content f) (store_name st)
       (filename f)"

definition writable :: "world \<Rightarrow> state \<Rightarrow> upload_file \<Rightarrow> bool" where
  "writable w s f =
     (open_error w (filename f) = None \<and> plain (filename f) \<and>
      is_dir (disk s) (upload_dir s) \<and> \<not> is_dir (disk s) (upload_dir s @ [filename f]))"

definition ingests :: "world \<Rightarrow> client \<Rightarrow> store \<Rightarrow> upload_file \<Rightarrow> bool" where
  "ingests w c st f =
     (case submit w c st f of Inl msg \<Rightarrow> False | Inr opn \<Rightarrow> completes_in_time w c opn)"

definition stalls :: "world \<Rightarrow> client \<Rightarrow> store \<Rightarrow> upload_file \<Rightarrow> bool" where
  "stalls w c st f =
     (case submit w c st f of Inl msg \<Rightarrow> False | Inr opn \<Rightarrow> pending_past_deadline w c opn)"

text \<open>Reading the trace: the index creations, the display names of the files submitted
  for ingestion, the sleeps.\<close>

fun is_create :: "event \<Rightarrow> bool" where
  "is_create (CreateStore c d) = True"
| "is_create e = False"

fun is_sleep :: "event \<Rightarrow> bool" where
  "is_sleep (Sleep n) = True"
| "is_sleep e = False"

definition creations :: "event list \<Rightarrow> nat" where
  "creations tr = length (filter is_create tr)"

definition sleeps :: "event list \<Rightarrow> nat" where
  "sleeps tr = length (filter is_sleep tr)"

fun submitted :: "event list \<Rightarrow> string list" where
  "submitted [] = []"
| "submitted (UploadToStore c path sname dname # es) = dname # submitted es"
| "submitted (e # es) = submitted es"

text \<open>The bytes of the last file of a batch that has a given name, if any has.\<close>

fun latest :: "upload_file list \<Rightarrow> string \<Rightarrow> bytes option" where
  "latest [] nm = None"
| "latest (f # fs) nm =
     (case latest fs nm of
        Some d \<Rightarrow> Some d
      | None \<Rightarrow> if filename f = nm then Some (content f) else None)"


text \<open>The listing without the modification times.\<close>

definition name_sizes :: "file_info list \<Rightarrow> (string \<times> nat) list" where
  "name_sizes infos = map (\<lambda>(n, sz, t). (n, sz)) infos"



fun is_set_api_key :: "request \<Rightarrow> bool" where
  "is_set_api_key (SetApiKey k) = True"
| "is_set_api_key r = False"

section \<open>A concrete world and process\<close>

text \<open>
  A test double for the collaborators: the key \<open>bad\<close> makes the client constructor raise;
  a value with a NUL cannot be stored in the environment and a name with a NUL cannot be
  opened. Every index is named \<open>fileSearchStores/demo\<close>. A file submitted as \<open>slow.pdf\<close>
  never finishes ingesting and the status call for \<open>broken.pdf\<close> raises; every other file
  is done at the first status call. A round of the wait loop takes 3 time units, and 102
  for \<open>late.pdf\<close>. In the second world the clock stands still.
\<close>

definition demo_get :: "client \<Rightarrow> operation \<Rightarrow> string + operation" where
  "demo_get c opn =
     (if op_name opn = ''slow.pdf'' then Inr opn
      else if op_name opn = ''broken.pdf'' then Inl ''503 Service Unavailable''
      else Inr (opn\<lparr>op_done := True\<rparr>))"

definition demo_world :: world where
  "demo_world =
     \<lparr>client_error = (\<lambda>k. if k = ''bad'' then Some ''invalid API key'' else None),
      setenv_error = (\<lambda>k. if CHR 0x00 \<in> set k then Some ''embedded null byte'' else None),
      open_error = (\<lambda>n. if CHR 0x00 \<in> set n then Some ''embedded null byte'' else None),
      create_store = (\<lambda>c d. Inr (Store ''fileSearchStores/demo'')),
      upload_to_file_search_store =
        (\<lambda>c path data sname dname. Inr \<lparr>op_name = dname, op_done = False, op_rest = 0\<rparr>),
      operations_get = demo_get,
      clock_step = (\<lambda>opn. if op_name opn = ''late.pdf'' then 102 else 3),
      generate_content = (\<lambda>c model contents stores. Inr (Some ''No information found.''))\<rparr>"

definition frozen_world :: world where
  "frozen_world = demo_world\<lparr>clock_step := (\<lambda>opn. 0)\<rparr>"

text \<open>The process right after start in \<open>/srv/app\<close>, without a key in the environment and
  with an empty upload directory; the same with a key in the environment; and a process
  that has built its client and created its index.\<close>

definition fresh :: state where
  "fresh = \<lparr>env_api_key = None, client = None, file_search_store = None,
            cwd = [''srv'', ''app''],
            disk = [([''srv''], Dir), ([''srv'', ''app''], Dir),
                    ([''srv'', ''app'', ''uploads''], Dir)],
            now = 0, trace = []\<rparr>"

definition keyed :: state where
  "keyed = fresh\<lparr>env_api_key := Some ''good-key''\<rparr>"

definition working :: state where
  "working =
     keyed\<lparr>client := Some (Client ''good-key''),
           file_search_store := Some (Store ''fileSearchStores/demo''),
           trace := [CreateStore (Client ''good-key'') ''demo-file-search-store'']\<rparr>"

definition slow_op :: operation where
  "slow_op = \<lparr>op_name = ''slow.pdf'', op_done = False, op_rest = 0\<rparr>"

definition broken_op :: operation where
  "broken_op = \<lparr>op_name = ''broken.pdf'', op_done = False, op_rest = 0\<rparr>"

definition late_op :: operation where
  "late_op = \<lparr>op_name = ''late.pdf'', op_done = False, op_rest = 0\<rparr>"

text \<open>The working process after \<open>notes.txt\<close> (first version) has been uploaded.\<close>

definition stocked :: state where
  "stocked =
     working\<lparr>disk := disk working @
                      [([''srv'', ''app'', ''uploads'', ''notes.txt''], RegFile ''first draft'' 0)],
             now := 3,
             trace := trace working @
               [UploadToStore (Client ''good-key'') ''uploads/notes.txt'' ''fileSearchStores/demo''
                  ''notes.txt'',
                Sleep 2,
                OperationsGet (Client ''good-key'')
                  \<lparr>op_name = ''notes.txt'', op_done = False, op_rest = 0\<rparr>]\<rparr>"

text \<open>Files to upload: two versions of \<open>notes.txt\<close>, a report, a file whose ingestion
  never finishes, one whose ingestion is seen finished late, one more, and two versions
  of a file whose name leads out of the upload directory.\<close>

definition notes_v1 :: upload_file where
  "notes_v1 = \<lparr>filename = ''notes.txt'', content = ''first draft''\<rparr>"

definition notes_v2 :: upload_file where
  "notes_v2 = \<lparr>filename = ''notes.txt'', content = ''final''\<rparr>"

definition report :: upload_file where
  "report = \<lparr>filename = ''report.pdf'', content = ''%PDF-1.7''\<rparr>"

definition slow_file :: upload_file where
  "slow_file = \<lparr>filename = ''slow.pdf'', content = ''%PDF''\<rparr>"

definition late_file :: upload_file where
  "late_file = \<lparr>filename = ''late.pdf'', content = ''%PDF''\<rparr>"

definition extra_file :: upload_file where
  "extra_file = \<lparr>filename = ''extra.txt'', content = ''x''\<rparr>"

definition escape_v1 :: upload_file where
  "escape_v1 = \<lparr>filename = ''../escape.txt'', content = ''first''\<rparr>"

definition escape_v2 :: upload_file where
  "escape_v2 = \<lparr>filename = ''../escape.txt'', content = ''second one''\<rparr>"

section \<open>The wait loop\<close>

text \<open>What the loop does, round by round, when it returns: after \<open>k\<close> rounds the trace has
  grown by the \<open>k\<close> sleeps and status calls, the clock by what the rounds took, and the loop
  has ended in the way the \<open>k\<close>-th status call decides. Conversely the loop returns as soon
  as a status call shows the operation done, shows it pending with more than 60 elapsed,
  or raises.\<close>

lemma wait_rounds:
  assumes "wait_for_import w c fname start opn s = Some y"
  shows "\<exists>k. (\<forall>n<k. reports_pending (refetch w c n opn) \<and>
              now s + fetch_time w c n opn - start \<le> 60) \<and>
       snd y = s\<lparr>now := now s + fetch_time w c k opn, trace := trace s @ polls w c k opn\<rparr> \<and>
       (case refetch w c k opn of
          Inl msg \<Rightarrow> fst y = Inl (Error msg)
        | Inr opn' \<Rightarrow>
            if op_done opn' then fst y = Inr opn'
            else fst y = Inl (HTTPException 408 (''Timeout importing '' @ fname)) \<and>
                 60 < now s + fetch_time w c k opn - start)"
proof (rule wait_for_import.raw_induct[where P = "\<lambda>w c fname start opn s y.
     \<exists>k. (\<forall>n<k. reports_pending (refetch w c n opn) \<and>
              now s + fetch_time w c n opn - start \<le> 60) \<and>
       snd y = s\<lparr>now := now s + fetch_time w c k opn, trace := trace s @ polls w c k opn\<rparr> \<and>
       (case refetch w c k opn of
          Inl msg \<Rightarrow> fst y = Inl (Error msg)
        | Inr opn' \<Rightarrow>
            if op_done opn' then fst y = Inr opn'
            else fst y = Inl (HTTPException 408 (''Timeout importing '' @ fname)) \<and>
                 60 < now s + fetch_time w c k opn - start)", OF _ assms])
  fix wait :: "world \<Rightarrow> client \<Rightarrow> string \<Rightarrow> int \<Rightarrow> operation \<Rightarrow> state \<Rightarrow>
               ((exn + operation) \<times> state) option"
    and w c fname start opn s y
  assume IH: "\<And>w c fname start opn s y. wait w c fname start opn s = Some y \<Longrightarrow>
     \<exists>k. (\<forall>n<k. reports_pending (refetch w c n opn) \<and>
              now s + fetch_time w c n opn - start \<le> 60) \<and>
       snd y = s\<lparr>now := now s + fetch_time w c k opn, trace := trace s @ polls w c k opn\<rparr> \<and>
       (case refetch w c k opn of
          Inl msg \<Rightarrow> fst y = Inl (Error msg)
        | Inr opn' \<Rightarrow>
            if op_done opn' then fst y = Inr opn'
            else fst y = Inl (HTTPException 408 (''Timeout importing '' @ fname)) \<and>
                 60 < now s + fetch_time w c k opn - start)"
  assume body: "(if op_done opn then Some (Inr opn, s)
      else if now s - start > 60 then
        Some (Inl (HTTPException 408 (''Timeout importing '' @ fname)), s)
      else
        (case operations_get w c opn of
           Inl msg \<Rightarrow>
             Some (Inl (Error msg),
                   s\<lparr>now := now s + clock_step w opn,
                     trace := trace s @ [Sleep 2, OperationsGet c opn]\<rparr>)
         | Inr opn' \<Rightarrow>
             wait w c fname start opn'
               (s\<lparr>now := now s + clock_step w opn,
                  trace := trace s @ [Sleep 2, OperationsGet c opn]\<rparr>))) = Some y"
  show "\<exists>k. (\<forall>n<k. reports_pending (refetch w c n opn) \<and>
              now s + fetch_time w c n opn - start \<le> 60) \<and>
       snd y = s\<lparr>now := now s + fetch_time w c k opn, trace := trace s @ polls w c k opn\<rparr> \<and>
       (case refetch w c k opn of
          Inl msg \<Rightarrow> fst y = Inl (Error msg)
        | Inr opn' \<Rightarrow>
            if op_done opn' then fst y = Inr opn'
            else fst y = Inl (HTTPException 408 (''Timeout importing '' @ fname)) \<and>
                 60 < now s + fetch_time w c k opn - start)"
  proof (cases "op_done opn")
    case True
    with body have "y = (Inr opn, s)" by simp
    then show ?thesis using True by (intro exI[of _ 0]) simp
  next
    case pending: False
    show ?thesis
    proof (cases "60 < now s - start")
      case True
      with pending body
      have "y = (Inl (HTTPException 408 (''Timeout importing '' @ fname)), s)" by simp
      then show ?thesis using True pending by (intro exI[of _ 0]) simp
    next
      case intime: False
      define s1 where "s1 = s\<lparr>now := now s + clock_step w opn,
                             trace := trace s @ [Sleep 2, OperationsGet c opn]\<rparr>"
      show ?thesis
      proof (cases "operations_get w c opn")
        case (Inl msg)
        with pending intime body have "y = (Inl (Error msg), s1)" by (simp add: s1_def)
        then show ?thesis using Inl intime pending
          by (intro exI[of _ 1]) (simp add: s1_def)
      next
        case (Inr opn1)
        with pending intime body have rec: "wait w c fname start opn1 s1 = Some y"
          by (simp add: s1_def)
        from IH[OF rec] obtain k where
          k1: "\<forall>n<k. reports_pending (refetch w c n opn1) \<and>
                     now s1 + fetch_time w c n opn1 - start \<le> 60"
          and k2: "snd y = s1\<lparr>now := now s1 + fetch_time w c k opn1,
                               trace := trace s1 @ polls w c k opn1\<rparr>"
          and k3: "(case refetch w c k opn1 of
              Inl msg \<Rightarrow> fst y = Inl (Error msg)
            | Inr opn' \<Rightarrow>
                if op_done opn' then fst y = Inr opn'
                else fst y = Inl (HTTPException 408 (''Timeout importing '' @ fname)) \<and>
                     60 < now s1 + fetch_time w c k opn1 - start)"
          by blast
        have a: "\<forall>n<Suc k. reports_pending (refetch w c n opn) \<and>
                    now s + fetch_time w c n opn - start \<le> 60"
        proof (intro allI impI)
          fix n assume n: "n < Suc k"
          show "reports_pending (refetch w c n opn) \<and> now s + fetch_time w c n opn - start \<le> 60"
          proof (cases n)
            case 0
            with pending intime show ?thesis by simp
          next
            case (Suc m)
            with n have "m < k" by simp
            with k1 have "reports_pending (refetch w c m opn1) \<and>
                     now s1 + fetch_time w c m opn1 - start \<le> 60" by blast
            then show ?thesis using Suc Inr by (simp add: s1_def algebra_simps)
          qed
        qed
        have b: "snd y = s\<lparr>now := now s + fetch_time w c (Suc k) opn,
                             trace := trace s @ polls w c (Suc k) opn\<rparr>"
          using k2 Inr by (simp add: s1_def algebra_simps)
        have c: "(case refetch w c (Suc k) opn of
              Inl msg \<Rightarrow> fst y = Inl (Error msg)
            | Inr opn' \<Rightarrow>
                if op_done opn' then fst y = Inr opn'
                else fst y = Inl (HTTPException 408 (''Timeout importing '' @ fname)) \<and>
                     60 < now s + fetch_time w c (Suc k) opn - start)"
        proof -
          have t: "now s1 + fetch_time w c k opn1 = now s + fetch_time w c (Suc k) opn"
            using Inr by (simp add: s1_def)
          have r: "refetch w c (Suc k) opn = refetch w c k opn1" using Inr by simp
          show ?thesis unfolding r using k3 unfolding t
            by (cases "refetch w c k opn1") simp_all
        qed
        from a b c show ?thesis by blast
      qed
    qed
  qed
qed

lemma wait_stop:
  "\<forall>n<k. reports_pending (refetch w c n opn) \<and> now s + fetch_time w c n opn - start \<le> 60 \<Longrightarrow>
   \<not> (reports_pending (refetch w c k opn) \<and> now s + fetch_time w c k opn - start \<le> 60) \<Longrightarrow>
   \<exists>y. wait_for_import w c fname start opn s = Some y"
proof (induction k arbitrary: opn s)
  case 0
  show ?case
  proof (cases "op_done opn")
    case True
    then show ?thesis by (simp add: wait_for_import.simps[of w c fname start opn s])
  next
    case False
    with "0.prems"(2) have "60 < now s - start" by simp
    with False show ?thesis by (simp add: wait_for_import.simps[of w c fname start opn s])
  qed
next
  case (Suc k)
  from Suc.prems(1) have "reports_pending (refetch w c 0 opn) \<and>
      now s + fetch_time w c 0 opn - start \<le> 60" by blast
  then have pending: "\<not> op_done opn" and intime: "\<not> 60 < now s - start" by simp_all
  define s1 where "s1 = s\<lparr>now := now s + clock_step w opn,
                         trace := trace s @ [Sleep 2, OperationsGet c opn]\<rparr>"
  show ?case
  proof (cases "operations_get w c opn")
    case (Inl msg)
    with pending intime show ?thesis
      by (simp add: wait_for_import.simps[of w c fname start opn s])
  next
    case (Inr opn1)
    have a: "\<forall>n<k. reports_pending (refetch w c n opn1) \<and>
                now s1 + fetch_time w c n opn1 - start \<le> 60"
    proof (intro allI impI)
      fix n assume "n < k"
      then have "Suc n < Suc k" by simp
      with Suc.prems(1) have "reports_pending (refetch w c (Suc n) opn) \<and>
          now s + fetch_time w c (Suc n) opn - start \<le> 60" by blast
      then show "reports_pending (refetch w c n opn1) \<and>
                now s1 + fetch_time w c n opn1 - start \<le> 60"
        using Inr by (simp add: s1_def algebra_simps)
    qed
    have b: "\<not> (reports_pending (refetch w c k opn1) \<and>
                now s1 + fetch_time w c k opn1 - start \<le> 60)"
      using Suc.prems(2) Inr by (simp add: s1_def algebra_simps)
    from Suc.IH[OF a b] obtain y where "wait_for_import w c fname start opn1 s1 = Some y"
      by blast
    then show ?thesis using pending intime Inr
      by (simp add: wait_for_import.simps[of w c fname start opn s] s1_def)
  qed
qed

lemma rounds_unique:
  assumes "\<forall>n<k. P n" "\<not> P k" "\<forall>n<j. P n" "\<not> P j"
  shows "j = (k::nat)"
proof (rule ccontr)
  assume "j \<noteq> k"
  then consider "j < k" | "k < j" by linarith
  then show False
  proof cases
    case 1
    with assms(1) have "P j" by blast
    with assms(4) show False by simp
  next
    case 2
    with assms(3) have "P k" by blast
    with assms(2) show False by simp
  qed
qed

lemma fetch_time_steady:
  "steady w \<Longrightarrow> \<forall>n<k. reports_pending (refetch w c n opn) \<Longrightarrow>
   2 * int k \<le> fetch_time w c k opn"
proof (induction k arbitrary: opn)
  case 0
  then show ?case by simp
next
  case (Suc k)
  have step: "2 \<le> clock_step w opn" using Suc.prems(1) by (simp add: steady_def)
  show ?case
  proof (cases "operations_get w c opn")
    case (Inl msg)
    have "k = 0"
    proof (rule ccontr)
      assume "k \<noteq> 0"
      then have "Suc 0 < Suc k" by simp
      with Suc.prems(2) have "reports_pending (refetch w c (Suc 0) opn)" by blast
      with Inl show False by simp
    qed
    with step Inl show ?thesis by simp
  next
    case (Inr opn1)
    have "\<forall>n<k. reports_pending (refetch w c n opn1)"
    proof (intro allI impI)
      fix n assume "n < k"
      then have "Suc n < Suc k" by simp
      with Suc.prems(2) have "reports_pending (refetch w c (Suc n) opn)" by blast
      with Inr show "reports_pending (refetch w c n opn1)" by simp
    qed
    from Suc.IH[OF Suc.prems(1) this] step Inr show ?thesis by simp
  qed
qed


lemma wait_exact:
  assumes before: "\<forall>n<k. reports_pending (refetch w c n opn) \<and>
                        now s + fetch_time w c n opn - start \<le> 60"
    and stop: "\<not> (reports_pending (refetch w c k opn) \<and>
                  now s + fetch_time w c k opn - start \<le> 60)"
  shows "\<exists>r. wait_for_import w c fname start opn s =
               Some (r, s\<lparr>now := now s + fetch_time w c k opn,
                          trace := trace s @ polls w c k opn\<rparr>) \<and>
             (case refetch w c k opn of
                Inl msg \<Rightarrow> r = Inl (Error msg)
              | Inr opn' \<Rightarrow>
                  if op_done opn' then r = Inr opn'
                  else r = Inl (HTTPException 408 (''Timeout importing '' @ fname)) \<and>
                       60 < now s + fetch_time w c k opn - start)"
proof -
  from wait_stop[OF before stop] obtain y where y: "wait_for_import w c fname start opn s = Some y"
    by blast
  from wait_rounds[OF y] obtain j where
    j1: "\<forall>n<j. reports_pending (refetch w c n opn) \<and> now s + fetch_time w c n opn - start \<le> 60"
    and j2: "snd y = s\<lparr>now := now s + fetch_time w c j opn, trace := trace s @ polls w c j opn\<rparr>"
    and j3: "(case refetch w c j opn of
          Inl msg \<Rightarrow> fst y = Inl (Error msg)
        | Inr opn' \<Rightarrow>
            if op_done opn' then fst y = Inr opn'
            else fst y = Inl (HTTPException 408 (''Timeout importing '' @ fname)) \<and>
                 60 < now s + fetch_time w c j opn - start)"
    by blast
  have j4: "\<not> (reports_pending (refetch w c j opn) \<and>
                  now s + fetch_time w c j opn - start \<le> 60)"
    using j3 by (cases "refetch w c j opn") (auto split: if_splits)
  have jk: "j = k"
    by (rule rounds_unique[where P = "\<lambda>n. reports_pending (refetch w c n opn) \<and>
                  now s + fetch_time w c n opn - start \<le> 60", OF before stop j1 j4])
  have "wait_for_import w c fname start opn s =
               Some (fst y, s\<lparr>now := now s + fetch_time w c k opn,
                          trace := trace s @ polls w c k opn\<rparr>)"
    using y j2[unfolded jk] by (metis prod.collapse)
  with j3[unfolded jk] show ?thesis by blast
qed

lemma submitted_append: "submitted (xs @ ys) = submitted xs @ submitted ys"
  by (induction xs rule: submitted.induct) auto

lemma creations_append: "creations (xs @ ys) = creations xs + creations ys"
  by (simp add: creations_def)

lemma sleeps_append: "sleeps (xs @ ys) = sleeps xs + sleeps ys"
  by (simp add: sleeps_def)

lemma submitted_polls: "submitted (polls w c k opn) = []"
  by (induction k arbitrary: opn) (auto split: sum.splits)

lemma creations_polls: "creations (polls w c k opn) = 0"
  by (induction k arbitrary: opn) (auto simp: creations_def split: sum.splits)

lemma sleeps_polls: "sleeps (polls w c k opn) \<le> k"
  by (induction k arbitrary: opn) (auto simp: sleeps_def split: sum.splits)

lemma wait_frame:
  assumes "wait_for_import w c fname start opn s = Some (r, s')"
  shows "env_api_key s' = env_api_key s \<and> client s' = client s \<and>
         file_search_store s' = file_search_store s \<and> cwd s' = cwd s \<and> disk s' = disk s \<and>
         creations (trace s') = creations (trace s) \<and>
         submitted (trace s') = submitted (trace s)"
proof -
  from wait_rounds[OF assms] obtain k where
    "s' = s\<lparr>now := now s + fetch_time w c k opn, trace := trace s @ polls w c k opn\<rparr>"
    by auto
  then show ?thesis
    by (simp add: creations_append creations_polls submitted_append submitted_polls)
qed

lemma steady_rounds:
  assumes "steady w"
  shows "\<exists>k\<le>31. (\<forall>n<k. reports_pending (refetch w c n opn) \<and> fetch_time w c n opn \<le> 60) \<and>
                \<not> (reports_pending (refetch w c k opn) \<and> fetch_time w c k opn \<le> 60)"
proof -
  let ?P = "\<lambda>n. reports_pending (refetch w c n opn) \<and> fetch_time w c n opn \<le> 60"
  have ex: "\<exists>m\<le>31. \<not> ?P m"
  proof (cases "\<forall>n<31. reports_pending (refetch w c n opn)")
    case True
    from fetch_time_steady[OF assms True] have "62 \<le> fetch_time w c 31 opn" by simp
    then have "\<not> ?P 31" by simp
    then show ?thesis by blast
  next
    case False
    then obtain n where "n < 31" "\<not> reports_pending (refetch w c n opn)" by blast
    then have "n \<le> 31" "\<not> ?P n" by simp_all
    then show ?thesis by blast
  qed
  then obtain m where m: "m \<le> 31" "\<not> ?P m" by blast
  define k where "k = (LEAST n. \<not> ?P n)"
  have a: "\<not> ?P k" unfolding k_def by (rule LeastI[of "\<lambda>n. \<not> ?P n", OF m(2)])
  have "k \<le> m" unfolding k_def by (rule Least_le[of "\<lambda>n. \<not> ?P n", OF m(2)])
  with m(1) have b: "k \<le> 31" by simp
  have c: "\<forall>n<k. ?P n"
  proof (intro allI impI)
    fix n assume "n < k"
    then have "\<not> \<not> ?P n" unfolding k_def by (rule not_less_Least)
    then show "?P n" by simp
  qed
  from a b c show ?thesis by blast
qed


lemma refetch_slow: "refetch demo_world c n slow_op = Inr slow_op"
  by (induction n) (simp_all add: demo_world_def demo_get_def slow_op_def)

lemma refetch_slow_frozen: "refetch frozen_world c n slow_op = Inr slow_op"
  by (induction n) (simp_all add: frozen_world_def demo_world_def demo_get_def slow_op_def)

lemma fetch_time_frozen: "fetch_time frozen_world c n opn = 0"
  by (induction n arbitrary: opn) (auto simp: frozen_world_def split: sum.splits)

lemma steady_demo: "steady demo_world"
  by (simp add: steady_def demo_world_def)

text \<open>
  C4 (as amended). While the clock is steady (no round of the loop sees it advance by less
  than the 2 time units slept), the wait loop returns, for every operation and every
  answer of the status call. Started at the time of the submission it runs a number \<open>k\<close>
  of rounds that is at most 31, each a sleep of 2 time units followed by a status call:
  the submission and the first \<open>k - 1\<close> status calls showed the operation not done with at
  most 60 time units elapsed, and the loop ends at the first reading that is different,
  in one of three ways. The operation shows done and is returned; or it shows not done
  while more than 60 time units have elapsed, and the loop raises the 408 timeout naming
  the file; or the status call itself raises, and its exception leaves the loop at once
  (\<open>upload_files\<close> reports it as HTTP 500).
\<close>

theorem wait_for_import_terminates:
  assumes "steady w"
  shows "\<exists>k r s'. k \<le> 31 \<and>
           wait_for_import w c fname (now s) opn s = Some (r, s') \<and>
           (\<forall>n<k. reports_pending (refetch w c n opn) \<and> fetch_time w c n opn \<le> 60) \<and>
           trace s' = trace s @ polls w c k opn \<and>
           now s' = now s + fetch_time w c k opn \<and>
           sleeps (trace s') \<le> sleeps (trace s) + 31 \<and>
           (case refetch w c k opn of
              Inl msg \<Rightarrow> r = Inl (Error msg)
            | Inr opn' \<Rightarrow>
                if op_done opn' then r = Inr opn'
                else r = Inl (HTTPException 408 (''Timeout importing '' @ fname)) \<and>
                     60 < fetch_time w c k opn)"
proof -
  from steady_rounds[OF assms, of c opn] obtain k where k: "k \<le> 31"
    and before: "\<forall>n<k. reports_pending (refetch w c n opn) \<and> fetch_time w c n opn \<le> 60"
    and stop: "\<not> (reports_pending (refetch w c k opn) \<and> fetch_time w c k opn \<le> 60)"
    by blast
  have before': "\<forall>n<k. reports_pending (refetch w c n opn) \<and>
                        now s + fetch_time w c n opn - now s \<le> 60"
    using before by simp
  have stop': "\<not> (reports_pending (refetch w c k opn) \<and>
                  now s + fetch_time w c k opn - now s \<le> 60)"
    using stop by simp
  define s' where "s' = s\<lparr>now := now s + fetch_time w c k opn,
                          trace := trace s @ polls w c k opn\<rparr>"
  from wait_exact[OF before' stop', of fname] obtain r where
    run: "wait_for_import w c fname (now s) opn s = Some (r, s')"
    and res: "(case refetch w c k opn of
                Inl msg \<Rightarrow> r = Inl (Error msg)
              | Inr opn' \<Rightarrow>
                  if op_done opn' then r = Inr opn'
                  else r = Inl (HTTPException 408 (''Timeout importing '' @ fname)) \<and>
                       60 < now s + fetch_time w c k opn - now s)"
    unfolding s'_def by blast
  have res': "(case refetch w c k opn of
              Inl msg \<Rightarrow> r = Inl (Error msg)
            | Inr opn' \<Rightarrow>
                if op_done opn' then r = Inr opn'
                else r = Inl (HTTPException 408 (''Timeout importing '' @ fname)) \<and>
                     60 < fetch_time w c k opn)"
    using res by (cases "refetch w c k opn") (auto split: if_splits)
  have sl: "sleeps (trace s') \<le> sleeps (trace s) + 31"
    using sleeps_polls[of w c k opn] k by (simp add: s'_def sleeps_append)
  have "trace s' = trace s @ polls w c k opn" "now s' = now s + fetch_time w c k opn"
    by (simp_all add: s'_def)
  with k run before sl res' show ?thesis by blast
qed

theorem wait_for_import_terminates_witness:
  "\<exists>s'. wait_for_import demo_world (Client ''good-key'') ''slow.pdf'' (now working) slow_op working =
          Some (Inl (HTTPException 408 ''Timeout importing slow.pdf''), s')"
proof -
  have pending: "\<not> op_done slow_op" by (simp add: slow_op_def)
  from wait_for_import_terminates[OF steady_demo, of "Client ''good-key''" "''slow.pdf''" working slow_op]
  obtain k r s' where
    "wait_for_import demo_world (Client ''good-key'') ''slow.pdf'' (now working) slow_op working =
       Some (r, s')"
    and "(case refetch demo_world (Client ''good-key'') k slow_op of
              Inl msg \<Rightarrow> r = Inl (Error msg)
            | Inr opn' \<Rightarrow>
                if op_done opn' then r = Inr opn'
                else r = Inl (HTTPException 408 (''Timeout importing '' @ ''slow.pdf'')) \<and>
                     60 < fetch_time demo_world (Client ''good-key'') k slow_op)"
    by blast
  then show ?thesis using pending by (simp add: refetch_slow)
qed

text \<open>
  C4 as stated fails when the status call raises: the loop then ends neither with the
  operation done nor with the 408 timeout, but with the exception of the status call.
\<close>

theorem wait_for_import_counterexample:
  "map_option fst
     (wait_for_import demo_world (Client ''good-key'') ''broken.pdf'' (now working) broken_op
        working) = Some (Inl (Error ''503 Service Unavailable''))"
  unfolding wait_for_import.simps[of demo_world "Client ''good-key''" "''broken.pdf''"
      "now working" broken_op working]
  by (simp add: broken_op_def demo_world_def demo_get_def)

text \<open>The assumption on the clock cannot be dropped: when every round sees the clock
  where it was before, the loop never returns for an operation that stays pending.\<close>

lemma wait_for_import_frozen_clock:
  "wait_for_import frozen_world c fname (now s) slow_op s = None"
proof (rule ccontr)
  assume "wait_for_import frozen_world c fname (now s) slow_op s \<noteq> None"
  then obtain y where "wait_for_import frozen_world c fname (now s) slow_op s = Some y" by blast
  from wait_rounds[OF this] obtain k where
    "(case refetch frozen_world c k slow_op of
          Inl msg \<Rightarrow> fst y = Inl (Error msg)
        | Inr opn' \<Rightarrow>
            if op_done opn' then fst y = Inr opn'
            else fst y = Inl (HTTPException 408 (''Timeout importing '' @ fname)) \<and>
                 60 < now s + fetch_time frozen_world c k slow_op - now s)"
    by blast
  moreover have "\<not> op_done slow_op" by (simp add: slow_op_def)
  ultimately show False by (simp add: refetch_slow_frozen fetch_time_frozen)
qed

section \<open>The two helpers\<close>

lemma get_client_frame:
  "get_client w s = (r, s') \<Longrightarrow>
   env_api_key s' = env_api_key s \<and> file_search_store s' = file_search_store s \<and>
   cwd s' = cwd s \<and> disk s' = disk s \<and> now s' = now s \<and> trace s' = trace s"
  by (auto simp: get_client_def split: option.splits if_splits)

lemma get_client_Inr: "get_client w s = (Inr c, s') \<Longrightarrow> client s' = Some c"
  by (auto simp: get_client_def split: option.splits if_splits)

lemma get_client_cached: "client s = Some c \<Longrightarrow> get_client w s = (Inr c, s)"
  by (simp add: get_client_def)

lemma get_store_frame:
  "get_file_search_store w s = (r, s') \<Longrightarrow>
   env_api_key s' = env_api_key s \<and> cwd s' = cwd s \<and> disk s' = disk s \<and>
   now s' = now s"
  by (auto simp: get_file_search_store_def Let_def
           split: option.splits sum.splits prod.splits dest: get_client_frame)

lemma get_store_cached:
  "file_search_store s = Some st \<Longrightarrow> get_file_search_store w s = (Inr st, s)"
  by (simp add: get_file_search_store_def)

lemma get_store_Inr:
  "get_file_search_store w s = (Inr st, s') \<Longrightarrow> file_search_store s' = Some st"
  by (auto simp: get_file_search_store_def Let_def split: option.splits sum.splits prod.splits)

lemma get_store_client:
  "client s = Some c \<Longrightarrow> get_file_search_store w s = (r, s') \<Longrightarrow> client s' = Some c"
  by (auto simp: get_file_search_store_def Let_def get_client_cached
           split: option.splits sum.splits prod.splits)

lemma working_client: "get_client demo_world working = (Inr (Client ''good-key''), working)"
  by (simp add: get_client_def working_def)

lemma working_store:
  "get_file_search_store demo_world working = (Inr (Store ''fileSearchStores/demo''), working)"
  by (simp add: get_file_search_store_def working_def)

section \<open>Uploading no file\<close>

text \<open>
  C3. An upload request with no file is answered with HTTP 400 "No files provided", and
  the state after it is the state before it: the upload directory, the environment
  variable, the client, the index handle and the trace of outgoing calls are unchanged.
\<close>

theorem upload_no_files:
  "upload_files w [] s = Some (Inl (HTTPException 400 ''No files provided''), s)"
  by (simp add: upload_files_def)

section \<open>Setting the key\<close>

text \<open>
  C10. Setting a key is not atomic. When the client constructor raises on the new key
  (with message \<open>msg\<close>), the request is answered with HTTP 400 and that message, and the
  process is left with no client, no index handle and the new key in the environment:
  the globals were reset and the variable written before the constructor ran. After that
  \<open>get_client\<close> fails until another key is set.
\<close>

theorem set_api_key_not_atomic:
  assumes "setenv_error w k = None" and "client_error w k = Some msg"
  shows "set_api_key w k s =
           (Inl (HTTPException 400 msg),
            s\<lparr>client := None, file_search_store := None, env_api_key := Some k\<rparr>) \<and>
         (\<exists>e. fst (get_client w (snd (set_api_key w k s))) = Inl e)"
  using assms by (simp add: set_api_key_def get_client_def)

theorem set_api_key_not_atomic_witness:
  "set_api_key demo_world ''bad'' working =
     (Inl (HTTPException 400 ''invalid API key''),
      fresh\<lparr>env_api_key := Some ''bad'',
            trace := [CreateStore (Client ''good-key'') ''demo-file-search-store'']\<rparr>)"
  using set_api_key_not_atomic[of demo_world "''bad''" "''invalid API key''" working]
  by (simp add: demo_world_def working_def keyed_def fresh_def)

section \<open>Changing the key\<close>





section \<open>The chat message\<close>




section \<open>Plain names and the upload directory\<close>

text \<open>A plain name denotes the entry of that name in the upload directory, and the
  listing sees the file system through \<open>uploads\<close>: what is stored directly below the
  upload directory, by its last component.\<close>

lemma split_path_plain: "CHR ''/'' \<notin> set nm \<Longrightarrow> split_path nm = [nm]"
  by (induction nm) (auto split: list.splits)

lemma parts_plain: "plain nm \<Longrightarrow> parts nm = [nm]"
  by (simp add: plain_def parts_def split_path_plain)

lemma absolute_plain: "plain nm \<Longrightarrow> \<not> absolute nm"
  by (cases nm) (auto simp: plain_def)

lemma path_str_plain: "plain nm \<Longrightarrow> path_str nm = ''uploads/'' @ nm"
  by (simp add: path_str_def parts_plain absolute_plain)

lemma lookup_plain:
  "plain nm \<Longrightarrow> is_dir (disk s) (upload_dir s) \<Longrightarrow> lookup s nm = Inr (upload_dir s @ [nm])"
  by (simp add: lookup_def parts_plain absolute_plain) (simp add: plain_def)

lemma write_file_ok:
  "writable w s f \<Longrightarrow>
   write_file w f s =
     Inr (s\<lparr>disk := AList.update (upload_dir s @ [filename f]) (RegFile (content f) (now s))
                     (disk s)\<rparr>)"
  by (simp add: write_file_def writable_def lookup_plain)

lemma write_file_Inr:
  "write_file w f s = Inr s1 \<Longrightarrow>
   \<exists>p. \<not> is_dir (disk s) p \<and>
       s1 = s\<lparr>disk := AList.update p (RegFile (content f) (now s)) (disk s)\<rparr>"
  by (auto simp: write_file_def split: option.splits sum.splits if_splits)

lemma is_dir_update:
  "\<not> is_dir d p \<Longrightarrow> is_dir (AList.update p (RegFile b t) d) q = is_dir d q"
  by (auto simp: is_dir_def update_conv')

lemma inside_unique:
  "p \<noteq> [] \<Longrightarrow> butlast p = U \<Longrightarrow> last p = nm \<Longrightarrow> p = U @ [nm]"
  by (metis append_butlast_last_id)

lemma iterdir_update:
  "iterdir (AList.update (U @ [nm]) v d) U = AList.update nm v (iterdir d U)"
proof (induction d U rule: iterdir.induct)
  case (1 dir)
  then show ?case by simp
next
  case (2 p e d dir)
  show ?case
  proof (cases "p = dir @ [nm]")
    case True
    then show ?thesis by simp
  next
    case False
    then have "p \<noteq> [] \<and> butlast p = dir \<Longrightarrow> last p \<noteq> nm"
      using inside_unique[of p dir nm] by blast
    with False 2 show ?thesis by auto
  qed
qed


lemma iterdir_keys: "n \<in> fst ` set (iterdir d U) \<Longrightarrow> U @ [n] \<in> fst ` set d"
proof (induction d U rule: iterdir.induct)
  case (1 dir)
  then show ?case by simp
next
  case (2 p e d dir)
  show ?case
  proof (cases "p \<noteq> [] \<and> butlast p = dir")
    case True
    then have p: "p = dir @ [last p]" by (simp add: inside_unique)
    show ?thesis
    proof (cases "n = last p")
      case True
      with p show ?thesis by simp
    next
      case False
      with 2 \<open>p \<noteq> [] \<and> butlast p = dir\<close> show ?thesis by auto
    qed
  next
    case False
    with 2 show ?thesis by auto
  qed
qed

lemma iterdir_distinct: "distinct (map fst d) \<Longrightarrow> distinct (map fst (iterdir d U))"
proof (induction d U rule: iterdir.induct)
  case (1 dir)
  then show ?case by simp
next
  case (2 p e d dir)
  show ?case
  proof (cases "p \<noteq> [] \<and> butlast p = dir")
    case True
    then have p: "p = dir @ [last p]" by (simp add: inside_unique)
    have "last p \<notin> fst ` set (iterdir d dir)"
    proof
      assume "last p \<in> fst ` set (iterdir d dir)"
      from iterdir_keys[OF this] p have "p \<in> fst ` set d" by simp
      with "2.prems" show False by simp
    qed
    with 2 True show ?thesis by simp
  next
    case False
    with 2 show ?thesis by auto
  qed
qed

lemma uploads_write:
  "uploads (s\<lparr>disk := AList.update (upload_dir s @ [nm]) v (disk s)\<rparr>) =
   AList.update nm v (uploads s)"
  by (simp add: uploads_def upload_dir_def iterdir_update[of "cwd s @ [''uploads'']", simplified])


lemma uploads_distinct: "distinct (map fst (disk s)) \<Longrightarrow> distinct (map fst (uploads s))"
  unfolding uploads_def by (rule iterdir_distinct)

lemma uploads_cong:
  "disk s' = disk s \<Longrightarrow> cwd s' = cwd s \<Longrightarrow> uploads s' = uploads s"
  by (simp add: uploads_def upload_dir_def)

section \<open>The loop over the files\<close>

text \<open>When the wait loop ends well and when it ends with the timeout; what every run of
  the loop over the files leaves alone; and what a run does whose files are all written
  and ingested.\<close>

lemma wait_done:
  assumes "completes_in_time w c opn"
  shows "\<exists>opn' s'. wait_for_import w c fname (now s) opn s = Some (Inr opn', s')"
proof -
  from assms obtain k where k: "waits w c k opn" and d: "reports_done (refetch w c k opn)"
    by (auto simp: completes_in_time_def)
  have before: "\<forall>n<k. reports_pending (refetch w c n opn) \<and>
                        now s + fetch_time w c n opn - now s \<le> 60"
    using k by (simp add: waits_def)
  have stop: "\<not> (reports_pending (refetch w c k opn) \<and>
                  now s + fetch_time w c k opn - now s \<le> 60)"
    using d by (cases "refetch w c k opn") simp_all
  from wait_exact[OF before stop, of fname] obtain r where
    run: "wait_for_import w c fname (now s) opn s =
            Some (r, s\<lparr>now := now s + fetch_time w c k opn, trace := trace s @ polls w c k opn\<rparr>)"
    and res: "(case refetch w c k opn of
                Inl msg \<Rightarrow> r = Inl (Error msg)
              | Inr opn' \<Rightarrow>
                  if op_done opn' then r = Inr opn'
                  else r = Inl (HTTPException 408 (''Timeout importing '' @ fname)) \<and>
                       60 < now s + fetch_time w c k opn - now s)"
    by blast
  from d res obtain opn' where "r = Inr opn'" by (cases "refetch w c k opn") simp_all
  with run show ?thesis by blast
qed

lemma wait_timeout:
  assumes "pending_past_deadline w c opn"
  shows "\<exists>s'. wait_for_import w c fname (now s) opn s =
                Some (Inl (HTTPException 408 (''Timeout importing '' @ fname)), s')"
proof -
  from assms obtain k where k: "waits w c k opn" and p: "reports_pending (refetch w c k opn)"
    and late: "60 < fetch_time w c k opn"
    by (auto simp: pending_past_deadline_def)
  have before: "\<forall>n<k. reports_pending (refetch w c n opn) \<and>
                        now s + fetch_time w c n opn - now s \<le> 60"
    using k by (simp add: waits_def)
  have stop: "\<not> (reports_pending (refetch w c k opn) \<and>
                  now s + fetch_time w c k opn - now s \<le> 60)"
    using late by simp
  from wait_exact[OF before stop, of fname] obtain r where
    run: "wait_for_import w c fname (now s) opn s =
            Some (r, s\<lparr>now := now s + fetch_time w c k opn, trace := trace s @ polls w c k opn\<rparr>)"
    and res: "(case refetch w c k opn of
                Inl msg \<Rightarrow> r = Inl (Error msg)
              | Inr opn' \<Rightarrow>
                  if op_done opn' then r = Inr opn'
                  else r = Inl (HTTPException 408 (''Timeout importing '' @ fname)) \<and>
                       60 < now s + fetch_time w c k opn - now s)"
    by blast
  from p res have "r = Inl (HTTPException 408 (''Timeout importing '' @ fname))"
    by (cases "refetch w c k opn") simp_all
  with run show ?thesis by blast
qed

lemma import_files_frame:
  "import_files w c st fs n s = Some (r, s') \<Longrightarrow>
   env_api_key s' = env_api_key s \<and> client s' = client s \<and>
   file_search_store s' = file_search_store s \<and> cwd s' = cwd s \<and>
   creations (trace s') = creations (trace s)"
proof (induction fs arbitrary: n s)
  case Nil
  then show ?case by simp
next
  case (Cons f fs)
  show ?case
  proof (cases "write_file w f s")
    case (Inl e)
    with Cons.prems show ?thesis by simp
  next
    case (Inr s1)
    from write_file_Inr[OF Inr] obtain p where
      s1: "s1 = s\<lparr>disk := AList.update p (RegFile (content f) (now s)) (disk s)\<rparr>" by blast
    define s2 where "s2 = s1\<lparr>trace := trace s1 @
        [UploadToStore c (path_str (filename f)) (store_name st) (filename f)]\<rparr>"
    have s2: "env_api_key s2 = env_api_key s \<and> client s2 = client s \<and>
        file_search_store s2 = file_search_store s \<and> cwd s2 = cwd s \<and>
        creations (trace s2) = creations (trace s)"
      by (simp add: s2_def s1 creations_def)
    show ?thesis
    proof (cases "upload_to_file_search_store w c (path_str (filename f)) (content f)
                    (store_name st) (filename f)")
      case (Inl msg)
      with Cons.prems Inr have "s' = s2" by (simp add: s2_def Let_def)
      with s2 show ?thesis by simp
    next
      case sub: (Inr opn)
      show ?thesis
      proof (cases "wait_for_import w c (filename f) (now s2) opn s2")
        case None
        with Cons.prems Inr sub show ?thesis by (simp add: s2_def Let_def)
      next
        case (Some y)
        obtain r3 s3 where y: "y = (r3, s3)" by (cases y)
        with Some have w3: "wait_for_import w c (filename f) (now s2) opn s2 = Some (r3, s3)"
          by simp
        from wait_frame[OF w3] s2
        have s3: "env_api_key s3 = env_api_key s \<and> client s3 = client s \<and>
          file_search_store s3 = file_search_store s \<and> cwd s3 = cwd s \<and>
          creations (trace s3) = creations (trace s)"
          by simp
        show ?thesis
        proof (cases r3)
          case (Inl e)
          with Cons.prems Inr sub w3 have "s' = s3" by (simp add: s2_def Let_def)
          with s3 show ?thesis by simp
        next
          case (Inr opn')
          with Cons.prems \<open>write_file w f s = Inr s1\<close> sub w3
          have "import_files w c st fs (n + 1) s3 = Some (r, s')" by (simp add: s2_def Let_def)
          from Cons.IH[OF this] s3 show ?thesis by simp
        qed
      qed
    qed
  qed
qed

lemma import_files_append:
  "import_files w c st (xs @ ys) n s =
     (case import_files w c st xs n s of
        None \<Rightarrow> None
      | Some (Inl e, s1) \<Rightarrow> Some (Inl e, s1)
      | Some (Inr m, s1) \<Rightarrow> import_files w c st ys m s1)"
proof (induction xs arbitrary: n s)
  case Nil
  then show ?case by simp
next
  case (Cons f xs)
  show ?case
    by (simp add: Cons.IH Let_def split: sum.splits option.splits prod.splits)
qed

lemma writable_step:
  assumes "writable w s g" and "writable w s f"
    and "cwd s3 = cwd s"
    and "disk s3 = AList.update (upload_dir s @ [filename f]) (RegFile b t) (disk s)"
  shows "writable w s3 g"
proof -
  have nd: "\<not> is_dir (disk s) (upload_dir s @ [filename f])"
    using assms(2) by (simp add: writable_def)
  have u: "upload_dir s3 = upload_dir s" using assms(3) by (simp add: upload_dir_def)
  show ?thesis
    using assms(1) by (simp add: writable_def u assms(4) is_dir_update[OF nd])
qed

lemma import_files_ok:
  "\<forall>f\<in>set fs. writable w s f \<and> ingests w c st f \<Longrightarrow>
   \<exists>s'. import_files w c st fs n s = Some (Inr (n + length fs), s') \<and>
        cwd s' = cwd s \<and>
        (\<forall>q. is_dir (disk s') q = is_dir (disk s) q) \<and>
        (distinct (map fst (disk s)) \<longrightarrow> distinct (map fst (disk s'))) \<and>
        submitted (trace s') = submitted (trace s) @ map filename fs \<and>
        (\<forall>nm. case latest fs nm of
                Some d \<Rightarrow> (\<exists>t. map_of (uploads s') nm = Some (RegFile d t))
              | None \<Rightarrow> map_of (uploads s') nm = map_of (uploads s) nm)"
proof (induction fs arbitrary: n s)
  case Nil
  then show ?case by simp
next
  case (Cons f fs)
  from Cons.prems have wf: "writable w s f" and ing: "ingests w c st f" by simp_all
  have nd: "\<not> is_dir (disk s) (upload_dir s @ [filename f])"
    using wf by (simp add: writable_def)
  define s1 where "s1 = s\<lparr>disk := AList.update (upload_dir s @ [filename f])
                                     (RegFile (content f) (now s)) (disk s)\<rparr>"
  have wr: "write_file w f s = Inr s1" using write_file_ok[OF wf] by (simp add: s1_def)
  define s2 where "s2 = s1\<lparr>trace := trace s1 @
        [UploadToStore c (path_str (filename f)) (store_name st) (filename f)]\<rparr>"
  from ing obtain opn where
    sub: "upload_to_file_search_store w c (path_str (filename f)) (content f)
            (store_name st) (filename f) = Inr opn"
    and cit: "completes_in_time w c opn"
    by (auto simp: ingests_def submit_def split: sum.splits)
  from wait_done[OF cit, of "filename f" s2] obtain opn' s3 where
    w3: "wait_for_import w c (filename f) (now s2) opn s2 = Some (Inr opn', s3)" by blast
  note f3 = wait_frame[OF w3]
  have c3: "cwd s3 = cwd s" using f3 by (simp add: s2_def s1_def)
  have d3: "disk s3 = AList.update (upload_dir s @ [filename f]) (RegFile (content f) (now s))
                        (disk s)"
    using f3 by (simp add: s2_def s1_def)
  have u3: "uploads s3 = AList.update (filename f) (RegFile (content f) (now s)) (uploads s)"
  proof -
    have "uploads s3 = uploads s1"
      by (rule uploads_cong) (use f3 in \<open>simp_all add: s2_def\<close>)
    then show ?thesis by (simp add: s1_def uploads_write)
  qed
  have tr3: "submitted (trace s3) = submitted (trace s) @ [filename f]"
    using f3 by (simp add: s2_def s1_def submitted_append)
  have rest: "\<forall>g\<in>set fs. writable w s3 g \<and> ingests w c st g"
  proof
    fix g assume "g \<in> set fs"
    with Cons.prems have "writable w s g" and "ingests w c st g" by simp_all
    with writable_step[OF _ wf c3 d3] show "writable w s3 g \<and> ingests w c st g" by simp
  qed
  from Cons.IH[OF rest, of "n + 1"] obtain s' where ih:
    "import_files w c st fs (n + 1) s3 = Some (Inr (n + 1 + length fs), s') \<and>
     cwd s' = cwd s3 \<and>
     (\<forall>q. is_dir (disk s') q = is_dir (disk s3) q) \<and>
     (distinct (map fst (disk s3)) \<longrightarrow> distinct (map fst (disk s'))) \<and>
     submitted (trace s') = submitted (trace s3) @ map filename fs \<and>
     (\<forall>nm. case latest fs nm of
                Some d \<Rightarrow> (\<exists>t. map_of (uploads s') nm = Some (RegFile d t))
              | None \<Rightarrow> map_of (uploads s') nm = map_of (uploads s3) nm)"
    by (erule exE)
  from ih have imp: "import_files w c st fs (n + 1) s3 = Some (Inr (n + 1 + length fs), s')"
    by (rule conjunct1)
  from ih have cw: "cwd s' = cwd s3" by (elim conjE)
  from ih have dirs: "\<forall>q. is_dir (disk s') q = is_dir (disk s3) q" by (elim conjE)
  from ih have dist: "distinct (map fst (disk s3)) \<longrightarrow> distinct (map fst (disk s'))"
    by (elim conjE)
  from ih have tr: "submitted (trace s') = submitted (trace s3) @ map filename fs"
    by (elim conjE)
  from ih have look: "\<forall>nm. case latest fs nm of
                Some d \<Rightarrow> (\<exists>t. map_of (uploads s') nm = Some (RegFile d t))
              | None \<Rightarrow> map_of (uploads s') nm = map_of (uploads s3) nm"
    by (elim conjE)
  have r: "import_files w c st (f # fs) n s = Some (Inr (n + length (f # fs)), s')"
    using wr sub w3 imp by (simp add: s2_def Let_def)
  have a: "cwd s' = cwd s" using cw c3 by simp
  have b: "\<forall>q. is_dir (disk s') q = is_dir (disk s) q"
    using dirs by (simp add: d3 is_dir_update[OF nd])
  have cc: "distinct (map fst (disk s)) \<longrightarrow> distinct (map fst (disk s'))"
    using dist by (simp add: d3 distinct_update)
  have d: "submitted (trace s') = submitted (trace s) @ map filename (f # fs)"
    using tr tr3 by simp
  have e: "\<forall>nm. case latest (f # fs) nm of
           Some d \<Rightarrow> (\<exists>t. map_of (uploads s') nm = Some (RegFile d t))
         | None \<Rightarrow> map_of (uploads s') nm = map_of (uploads s) nm"
  proof
    fix nm
    from look have "case latest fs nm of
           Some d \<Rightarrow> (\<exists>t. map_of (uploads s') nm = Some (RegFile d t))
         | None \<Rightarrow> map_of (uploads s') nm = map_of (uploads s3) nm" by blast
    then show "case latest (f # fs) nm of
           Some d \<Rightarrow> (\<exists>t. map_of (uploads s') nm = Some (RegFile d t))
         | None \<Rightarrow> map_of (uploads s') nm = map_of (uploads s) nm"
      by (cases "latest fs nm") (auto simp: u3 update_conv')
  qed
  from r a b cc d e show ?case by (intro exI[of _ s'] conjI)
qed

lemma import_files_stall:
  assumes wf: "writable w s f" and st: "stalls w c st f"
  shows "\<exists>s'. (\<forall>post. import_files w c st (f # post) n s =
                 Some (Inl (HTTPException 408 (''Timeout importing '' @ filename f)), s')) \<and>
              map_of (uploads s') = (map_of (uploads s))(filename f \<mapsto> RegFile (content f) (now s)) \<and>
              submitted (trace s') = submitted (trace s) @ [filename f]"
proof -
  define s1 where "s1 = s\<lparr>disk := AList.update (upload_dir s @ [filename f])
                                     (RegFile (content f) (now s)) (disk s)\<rparr>"
  have wr: "write_file w f s = Inr s1" using write_file_ok[OF wf] by (simp add: s1_def)
  define s2 where "s2 = s1\<lparr>trace := trace s1 @
        [UploadToStore c (path_str (filename f)) (store_name st) (filename f)]\<rparr>"
  from st obtain opn where
    sub: "upload_to_file_search_store w c (path_str (filename f)) (content f)
            (store_name st) (filename f) = Inr opn"
    and pend: "pending_past_deadline w c opn"
    by (auto simp: stalls_def submit_def split: sum.splits)
  from wait_timeout[OF pend, of "filename f" s2] obtain s3 where
    w3: "wait_for_import w c (filename f) (now s2) opn s2 =
           Some (Inl (HTTPException 408 (''Timeout importing '' @ filename f)), s3)" by blast
  note f3 = wait_frame[OF w3]
  have "\<forall>post. import_files w c st (f # post) n s =
                 Some (Inl (HTTPException 408 (''Timeout importing '' @ filename f)), s3)"
    using wr sub w3 by (simp add: s2_def Let_def)
  moreover have "map_of (uploads s3) =
                   (map_of (uploads s))(filename f \<mapsto> RegFile (content f) (now s))"
  proof -
    have "uploads s3 = uploads s1"
      by (rule uploads_cong) (use f3 in \<open>simp_all add: s2_def\<close>)
    then show ?thesis by (simp add: s1_def uploads_write update_conv')
  qed
  moreover have "submitted (trace s3) = submitted (trace s) @ [filename f]"
    using f3 by (simp add: s2_def s1_def submitted_append)
  ultimately show ?thesis by blast
qed

section \<open>The listing and the batch\<close>

lemma file_infos_key: "(n, sz, t) \<in> set (file_infos al) \<Longrightarrow> n \<in> fst ` set al"
  by (induction al rule: file_infos.induct) (auto simp: image_iff)

lemma file_infos_iff:
  "distinct (map fst al) \<Longrightarrow>
   (n, sz, t) \<in> set (file_infos al) \<longleftrightarrow> (\<exists>d. map_of al n = Some (RegFile d t) \<and> sz = length d)"
proof (induction al rule: file_infos.induct)
  case 1
  then show ?case by simp
next
  case (2 m data mtime es)
  then show ?case by (auto dest: file_infos_key simp: image_iff dest!: map_of_SomeD)
next
  case (3 m es)
  then show ?case by (auto dest: file_infos_key simp: image_iff dest!: map_of_SomeD)
qed

lemma file_infos_distinct: "distinct (map fst al) \<Longrightarrow> distinct (map fst (file_infos al))"
proof (induction al rule: file_infos.induct)
  case (2 m data mtime es)
  have "m \<notin> fst ` set (file_infos es)"
  proof
    assume "m \<in> fst ` set (file_infos es)"
    then obtain sz t where "(m, sz, t) \<in> set (file_infos es)" by force
    from file_infos_key[OF this] "2.prems" show False by simp
  qed
  then show ?case using 2 by simp
qed simp_all


lemma name_sizes_iff:
  "distinct (map fst al) \<Longrightarrow>
   (n, sz) \<in> set (name_sizes (file_infos al)) \<longleftrightarrow>
   (\<exists>d t. map_of al n = Some (RegFile d t) \<and> sz = length d)"
proof -
  assume d: "distinct (map fst al)"
  have "(n, sz) \<in> set (name_sizes (file_infos al)) \<longleftrightarrow> (\<exists>t. (n, sz, t) \<in> set (file_infos al))"
    by (force simp: name_sizes_def)
  then show ?thesis using file_infos_iff[OF d] by blast
qed

lemma latest_None: "latest fs nm = None \<longleftrightarrow> nm \<notin> filename ` set fs"
  by (induction fs) (auto split: option.splits)

lemma latest_Some: "latest fs nm = Some d \<Longrightarrow> \<exists>f\<in>set fs. filename f = nm \<and> content f = d"
  by (induction fs) (auto split: option.splits if_splits)

lemma latest_distinct:
  "distinct (map filename fs) \<Longrightarrow> f \<in> set fs \<Longrightarrow> latest fs (filename f) = Some (content f)"
proof (induction fs)
  case Nil
  then show ?case by simp
next
  case (Cons g fs)
  show ?case
  proof (cases "f \<in> set fs")
    case True
    with Cons show ?thesis by simp
  next
    case False
    with Cons.prems have "f = g" and "filename g \<notin> filename ` set fs" by auto
    then show ?thesis by (simp add: latest_None[THEN iffD2])
  qed
qed

lemma latest_snoc:
  "latest (fs @ [f]) nm = (if filename f = nm then Some (content f) else latest fs nm)"
  by (induction fs) (auto split: option.splits)

section \<open>Uploading a batch\<close>

text \<open>The request handler around the loop, and the concrete world at work.\<close>

lemma upload_files_import:
  assumes "files \<noteq> []"
    and "get_client w s = (Inr c, s1)" and "get_file_search_store w s1 = (Inr st, s2)"
  shows "upload_files w files s =
           (case import_files w c st files 0 s2 of
              None \<Rightarrow> None
            | Some (Inl e, s3) \<Rightarrow> Some (Inl (reraise e), s3)
            | Some (Inr n, s3) \<Rightarrow>
                Some (Inr (Uploaded n (''Successfully uploaded '' @ str_nat n @ '' file(s)'')),
                      s3))"
  using assms by (simp add: upload_files_def)

lemma writable_frame:
  "disk s2 = disk s \<Longrightarrow> cwd s2 = cwd s \<Longrightarrow> writable w s2 f = writable w s f"
  by (simp add: writable_def upload_dir_def)

lemma list_files_dir: "is_dir (disk s) (upload_dir s) \<Longrightarrow> list_files s = Inr (listing s)"
  by (simp add: list_files_def)

lemma fetch_time_slow: "fetch_time demo_world c n slow_op = 3 * int n"
  by (induction n) (simp_all add: demo_world_def demo_get_def slow_op_def)

lemma demo_ingests:
  "filename f \<noteq> ''slow.pdf'' \<Longrightarrow> filename f \<noteq> ''broken.pdf'' \<Longrightarrow> ingests demo_world c st f"
  unfolding ingests_def submit_def completes_in_time_def
  by (simp add: demo_world_def) (rule exI[of _ 1], simp add: demo_get_def waits_def)

lemma demo_stalls: "stalls demo_world c st slow_file"
proof -
  have "submit demo_world c st slow_file = Inr slow_op"
    by (simp add: submit_def demo_world_def slow_file_def slow_op_def)
  moreover have "pending_past_deadline demo_world c slow_op"
    unfolding pending_past_deadline_def waits_def
  proof (rule exI[of _ 21])
    have "\<not> op_done slow_op" by (simp add: slow_op_def)
    then show "(\<forall>n<21. reports_pending (refetch demo_world c n slow_op) \<and>
                      fetch_time demo_world c n slow_op \<le> 60) \<and>
          reports_pending (refetch demo_world c 21 slow_op) \<and>
          60 < fetch_time demo_world c 21 slow_op"
      by (simp add: refetch_slow fetch_time_slow)
  qed
  ultimately show ?thesis by (simp add: stalls_def)
qed

lemmas demo_state = working_def keyed_def fresh_def stocked_def upload_dir_def is_dir_def

lemmas demo_files =
  notes_v1_def notes_v2_def report_def slow_file_def late_file_def extra_file_def
  escape_v1_def escape_v2_def

lemma demo_writable:
  "f \<in> {notes_v1, notes_v2, report, slow_file, late_file, extra_file} \<Longrightarrow>
   s \<in> {working, stocked} \<Longrightarrow> writable demo_world s f"
  by (auto simp: writable_def plain_def demo_world_def demo_files demo_state)

lemmas demo_eval =
  upload_files_def get_client_def get_file_search_store_def write_file_def list_files_def
  lookup_def path_str_def parts_def listing_def uploads_def
  demo_world_def demo_get_def wait_for_import.simps str_nat.simps Let_def
  demo_state demo_files

lemma stocked_reached:
  "upload_files demo_world [notes_v1] working =
     Some (Inr (Uploaded 1 ''Successfully uploaded 1 file(s)''), stocked)"
  by (simp add: demo_eval)




text \<open>
  C1 (as amended). A batch of \<open>N \<ge> 1\<close> files with distinct plain names (single path
  components other than \<open>.\<close> and \<open>..\<close>) is uploaded while the client and the index are
  available, the upload directory exists, none of the names is that of a directory in it,
  \<open>open\<close> accepts every name, and every ingestion completes in time: the submission or a
  status call shows it done, every earlier reading having shown it pending with at most
  60 time units elapsed. Then the request is answered with success and \<open>uploaded = N\<close>,
  and the listing afterwards consists of one entry for each file of the batch, with the
  size equal to the number of bytes of its content, together with the entries that were
  listed before under names not in the batch. When nothing was listed before, the listing
  has exactly the \<open>N\<close> names of the batch. (The file system holds every path once.)
\<close>

theorem upload_all_ingested:
  assumes ne: "files \<noteq> []" and dn: "distinct (map filename files)"
    and dd: "distinct (map fst (disk s))"
    and gc: "get_client w s = (Inr c, s1)" and gs: "get_file_search_store w s1 = (Inr st, s2)"
    and ok: "\<forall>f\<in>set files. writable w s f \<and> ingests w c st f"
  shows "\<exists>s' infos.
           upload_files w files s =
             Some (Inr (Uploaded (length files)
                     (''Successfully uploaded '' @ str_nat (length files) @ '' file(s)'')), s') \<and>
           list_files s = Inr (listing s) \<and>
           list_files s' = Inr infos \<and>
           set (name_sizes infos) =
             (\<lambda>f. (filename f, length (content f))) ` set files \<union>
             {(n, sz) \<in> set (name_sizes (listing s)). n \<notin> filename ` set files} \<and>
           distinct (map fst infos) \<and>
           (listing s = [] \<longrightarrow>
              fst ` set infos = filename ` set files \<and> length infos = length files)"
proof -
  have d2: "disk s2 = disk s" and c2: "cwd s2 = cwd s"
    using get_client_frame[OF gc] get_store_frame[OF gs] by simp_all
  have u2: "uploads s2 = uploads s" by (rule uploads_cong[OF d2 c2])
  have ok2: "\<forall>f\<in>set files. writable w s2 f \<and> ingests w c st f"
    using ok by (simp add: writable_frame[OF d2 c2])
  from ne ok obtain f0 where "writable w s f0" by (cases files) auto
  then have dir: "is_dir (disk s) (upload_dir s)" by (simp add: writable_def)
  from import_files_ok[OF ok2, of 0] obtain s' where
    imp: "import_files w c st files 0 s2 = Some (Inr (length files), s')"
    and cw: "cwd s' = cwd s2"
    and dirs: "\<forall>q. is_dir (disk s') q = is_dir (disk s2) q"
    and dist: "distinct (map fst (disk s2)) \<longrightarrow> distinct (map fst (disk s'))"
    and looks: "\<forall>nm. case latest files nm of
                Some d \<Rightarrow> (\<exists>t. map_of (uploads s') nm = Some (RegFile d t))
              | None \<Rightarrow> map_of (uploads s') nm = map_of (uploads s2) nm"
    by auto
  have res: "upload_files w files s =
                Some (Inr (Uploaded (length files)
                       (''Successfully uploaded '' @ str_nat (length files) @ '' file(s)'')), s')"
    using upload_files_import[OF ne gc gs] imp by simp
  have dir': "is_dir (disk s') (upload_dir s')"
    using dirs dir cw by (simp add: d2 c2 upload_dir_def)
  have l0: "list_files s = Inr (listing s)" by (rule list_files_dir[OF dir])
  have l1: "list_files s' = Inr (listing s')" by (rule list_files_dir[OF dir'])
  have du: "distinct (map fst (uploads s))" by (rule uploads_distinct[OF dd])
  have du': "distinct (map fst (uploads s'))"
    using dist dd by (simp add: d2 uploads_distinct)
  have look: "case latest files nm of
           Some d \<Rightarrow> (\<exists>t. map_of (uploads s') nm = Some (RegFile d t))
         | None \<Rightarrow> map_of (uploads s') nm = map_of (uploads s) nm" for nm
  proof -
    from looks have "case latest files nm of
           Some d \<Rightarrow> (\<exists>t. map_of (uploads s') nm = Some (RegFile d t))
         | None \<Rightarrow> map_of (uploads s') nm = map_of (uploads s2) nm" by blast
    then show ?thesis by (cases "latest files nm") (simp_all add: u2)
  qed
  have set_eq: "set (name_sizes (listing s')) =
                (\<lambda>f. (filename f, length (content f))) ` set files \<union>
                {(n, sz) \<in> set (name_sizes (listing s)). n \<notin> filename ` set files}"
    (is "?L = ?R")
  proof (rule set_eqI)
    fix p :: "string \<times> nat"
    obtain n sz where p: "p = (n, sz)" by (cases p)
    show "p \<in> ?L \<longleftrightarrow> p \<in> ?R"
    proof (cases "latest files n")
      case None
      then have notin: "n \<notin> filename ` set files" by (simp add: latest_None)
      from look[of n] None have "map_of (uploads s') n = map_of (uploads s) n" by simp
      then have "(n, sz) \<in> ?L \<longleftrightarrow> (n, sz) \<in> set (name_sizes (listing s))"
        by (simp add: listing_def name_sizes_iff[OF du] name_sizes_iff[OF du'])
      then show ?thesis using notin by (auto simp: p)
    next
      case (Some d)
      then obtain f where f: "f \<in> set files" "filename f = n" "content f = d"
        by (auto dest: latest_Some)
      from look[of n] Some obtain t where "map_of (uploads s') n = Some (RegFile d t)" by auto
      then have a: "(n, sz) \<in> ?L \<longleftrightarrow> sz = length d"
        by (auto simp: listing_def name_sizes_iff[OF du'])
      have b: "(n, sz) \<in> ?R \<longleftrightarrow> sz = length d"
      proof
        assume "(n, sz) \<in> ?R"
        then obtain g where g: "g \<in> set files" "filename g = n" "sz = length (content g)"
          using f by auto
        from latest_distinct[OF dn g(1)] Some g(2) have "content g = d" by simp
        with g show "sz = length d" by simp
      next
        assume "sz = length d"
        with f show "(n, sz) \<in> ?R" by force
      qed
      show ?thesis using a b by (simp add: p)
    qed
  qed
  have dl: "distinct (map fst (listing s'))"
    using file_infos_distinct[OF du'] by (simp add: listing_def)
  have fresh_case: "fst ` set (listing s') = filename ` set files \<and>
                 length (listing s') = length files" if e: "listing s = []"
  proof -
    have ns: "fst ` set (name_sizes (listing s')) = fst ` set (listing s')"
      by (force simp: name_sizes_def)
    have "set (name_sizes (listing s')) = (\<lambda>f. (filename f, length (content f))) ` set files"
      using set_eq e by (simp add: name_sizes_def)
    then have "fst ` set (name_sizes (listing s')) = filename ` set files"
      by (simp add: image_image)
    with ns have names: "fst ` set (listing s') = filename ` set files" by simp
    have "length (listing s') = card (fst ` set (listing s'))"
      using distinct_card[OF dl] by simp
    also have "\<dots> = card (filename ` set files)" by (simp add: names)
    also have "\<dots> = length files" using distinct_card[OF dn] by simp
    finally show ?thesis using names by simp
  qed
  from res l0 l1 set_eq dl fresh_case show ?thesis
    by (intro exI[of _ s'] exI[of _ "listing s'"] conjI impI) simp_all
qed

theorem upload_all_ingested_witness:
  "\<exists>s' infos. upload_files demo_world [notes_v1, report] working =
          Some (Inr (Uploaded 2 ''Successfully uploaded 2 file(s)''), s') \<and>
        list_files s' = Inr infos \<and>
        set (name_sizes infos) = {(''notes.txt'', 11), (''report.pdf'', 8)} \<and>
        length infos = 2"
proof -
  have a: "[notes_v1, report] \<noteq> []" by simp
  have b: "distinct (map filename [notes_v1, report])" by (simp add: notes_v1_def report_def)
  have c: "distinct (map fst (disk working))" by (simp add: demo_state)
  have d: "\<forall>f\<in>set [notes_v1, report].
             writable demo_world working f \<and>
             ingests demo_world (Client ''good-key'') (Store ''fileSearchStores/demo'') f"
  proof -
    have "ingests demo_world (Client ''good-key'') (Store ''fileSearchStores/demo'') notes_v1"
      by (rule demo_ingests) (simp_all add: notes_v1_def)
    moreover
    have "ingests demo_world (Client ''good-key'') (Store ''fileSearchStores/demo'') report"
      by (rule demo_ingests) (simp_all add: report_def)
    ultimately show ?thesis by (simp add: demo_writable)
  qed
  have e: "listing working = []" by (simp add: listing_def uploads_def demo_state)
  from upload_all_ingested[OF a b c working_client working_store d] obtain s' infos where
    r: "upload_files demo_world [notes_v1, report] working =
            Some (Inr (Uploaded (length [notes_v1, report])
                   (''Successfully uploaded '' @ str_nat (length [notes_v1, report]) @ '' file(s)'')), s')"
    and i: "list_files s' = Inr infos"
    and l: "set (name_sizes infos) =
                (\<lambda>f. (filename f, length (content f))) ` set [notes_v1, report] \<union>
                {(n, sz) \<in> set (name_sizes (listing working)). n \<notin> filename ` set [notes_v1, report]}"
    and k: "listing working = [] \<longrightarrow> length infos = length [notes_v1, report]"
    by blast
  have "set (name_sizes infos) = {(''notes.txt'', 11), (''report.pdf'', 8)}"
    unfolding l by (simp add: e name_sizes_def notes_v1_def report_def eval_nat_numeral)
  moreover have "length infos = 2" using k e by simp
  moreover have "upload_files demo_world [notes_v1, report] working =
          Some (Inr (Uploaded 2 ''Successfully uploaded 2 file(s)''), s')"
    using r by (simp add: str_nat.simps)
  ultimately show ?thesis using i by blast
qed

text \<open>
  C1 as stated fails when the directory is not empty: after \<open>notes.txt\<close> has been
  uploaded, an upload of the single file \<open>report.pdf\<close> answers \<open>uploaded = 1\<close> and the
  listing then has two names, not exactly that one.
\<close>

theorem upload_all_ingested_counterexample:
  "map_option fst (upload_files demo_world [report] stocked) =
     Some (Inr (Uploaded 1 ''Successfully uploaded 1 file(s)'')) \<and>
   map_option (map_sum id (set \<circ> name_sizes) \<circ> list_files)
     (run demo_world [Upload [notes_v1], Upload [report]] working) =
     Some (Inr {(''notes.txt'', 11), (''report.pdf'', 8)})"
  by (simp add: stocked_reached) (auto simp: demo_eval name_sizes_def)

text \<open>
  C2 (as amended). In a batch \<open>pre @ f # post\<close> of files with plain names, let the files
  of \<open>pre\<close> be written and ingested in time and let the ingestion of \<open>f\<close> (the \<open>k\<close>-th file)
  be pending past the deadline: the loop reaches a reading, the submission or a status
  call, that shows it not done with more than 60 time units elapsed, every earlier
  reading having shown it not done with at most 60 elapsed. Then the request fails with
  HTTP 408 and the detail "Timeout importing" followed by the name of \<open>f\<close>. Result and
  final state are those of the batch cut after \<open>f\<close>: the later files are neither written
  nor submitted. Nothing is rolled back: the upload directory holds, under every name of
  the first \<open>k\<close> files, the bytes of the last of them with that name, every other name is
  as it was, and the files submitted for ingestion by this request are the first \<open>k\<close>, in
  order.
\<close>

theorem upload_timeout_aborts:
  assumes gc: "get_client w s = (Inr c, s1)" and gs: "get_file_search_store w s1 = (Inr st, s2)"
    and ok: "\<forall>g\<in>set pre. writable w s g \<and> ingests w c st g"
    and wf: "writable w s f" and stall: "stalls w c st f"
  shows "\<exists>s'. upload_files w (pre @ f # post) s =
                Some (Inl (HTTPException 408 (''Timeout importing '' @ filename f)), s') \<and>
              upload_files w (pre @ [f]) s =
                Some (Inl (HTTPException 408 (''Timeout importing '' @ filename f)), s') \<and>
              (\<forall>nm. case latest (pre @ [f]) nm of
                      Some d \<Rightarrow> (\<exists>t. map_of (uploads s') nm = Some (RegFile d t))
                    | None \<Rightarrow> map_of (uploads s') nm = map_of (uploads s) nm) \<and>
              submitted (trace s') = submitted (trace s) @ map filename (pre @ [f])"
proof -
  have d2: "disk s2 = disk s" and c2: "cwd s2 = cwd s"
    using get_client_frame[OF gc] get_store_frame[OF gs] by simp_all
  have u2: "uploads s2 = uploads s" by (rule uploads_cong[OF d2 c2])
  have t2: "submitted (trace s2) = submitted (trace s)"
  proof -
    have "trace s1 = trace s" using get_client_frame[OF gc] by simp
    moreover have "submitted (trace s2) = submitted (trace s1)"
      using gs by (auto simp: get_file_search_store_def Let_def submitted_append
                        split: option.splits sum.splits prod.splits dest: get_client_frame)
    ultimately show ?thesis by simp
  qed
  have ok2: "\<forall>g\<in>set pre. writable w s2 g \<and> ingests w c st g"
    using ok by (simp add: writable_frame[OF d2 c2])
  from import_files_ok[OF ok2, of 0] obtain s3 where
    imp: "import_files w c st pre 0 s2 = Some (Inr (length pre), s3)"
    and cw: "cwd s3 = cwd s2"
    and dirs: "\<forall>q. is_dir (disk s3) q = is_dir (disk s2) q"
    and tr3: "submitted (trace s3) = submitted (trace s2) @ map filename pre"
    and written: "\<forall>nm. case latest pre nm of
                Some d \<Rightarrow> (\<exists>t. map_of (uploads s3) nm = Some (RegFile d t))
              | None \<Rightarrow> map_of (uploads s3) nm = map_of (uploads s2) nm"
    by auto
  have "writable w s3 f"
    using wf dirs cw by (simp add: writable_def upload_dir_def d2 c2)
  from import_files_stall[OF this stall, of "length pre"] obtain s' where
    ab: "\<And>post. import_files w c st (f # post) (length pre) s3 =
                 Some (Inl (HTTPException 408 (''Timeout importing '' @ filename f)), s')"
    and up: "map_of (uploads s') = (map_of (uploads s3))(filename f \<mapsto> RegFile (content f) (now s3))"
    and tr: "submitted (trace s') = submitted (trace s3) @ [filename f]"
    by blast
  have all: "import_files w c st (pre @ f # post) 0 s2 =
               Some (Inl (HTTPException 408 (''Timeout importing '' @ filename f)), s')" for post
    by (simp add: import_files_append imp ab del: import_files.simps)
  have r1: "upload_files w (pre @ f # post) s =
              Some (Inl (HTTPException 408 (''Timeout importing '' @ filename f)), s')" for post
    using upload_files_import[OF _ gc gs, of "pre @ f # post"] all[of post] by simp
  have r2: "upload_files w (pre @ [f]) s =
              Some (Inl (HTTPException 408 (''Timeout importing '' @ filename f)), s')"
    using r1[of "[]"] by simp
  have dir: "case latest (pre @ [f]) nm of
               Some d \<Rightarrow> (\<exists>t. map_of (uploads s') nm = Some (RegFile d t))
             | None \<Rightarrow> map_of (uploads s') nm = map_of (uploads s) nm" for nm
  proof -
    from written have "case latest pre nm of
           Some d \<Rightarrow> (\<exists>t. map_of (uploads s3) nm = Some (RegFile d t))
         | None \<Rightarrow> map_of (uploads s3) nm = map_of (uploads s2) nm" by blast
    then show ?thesis
      by (cases "latest pre nm") (auto simp: latest_snoc up u2)
  qed
  have "submitted (trace s') = submitted (trace s) @ map filename (pre @ [f])"
    using tr tr3 t2 by simp
  with r1 r2 dir show ?thesis by blast
qed

theorem upload_timeout_aborts_witness:
  "\<exists>s'. upload_files demo_world [notes_v1, slow_file, extra_file] working =
          Some (Inl (HTTPException 408 ''Timeout importing slow.pdf''), s') \<and>
        (\<exists>t. map_of (uploads s') ''notes.txt'' = Some (RegFile ''first draft'' t)) \<and>
        map_of (uploads s') ''extra.txt'' = None \<and>
        submitted (trace s') = [''notes.txt'', ''slow.pdf'']"
proof -
  have "ingests demo_world (Client ''good-key'') (Store ''fileSearchStores/demo'') notes_v1"
    by (rule demo_ingests) (simp_all add: notes_v1_def)
  then have a: "\<forall>g\<in>set [notes_v1].
             writable demo_world working g \<and>
             ingests demo_world (Client ''good-key'') (Store ''fileSearchStores/demo'') g"
    by (simp add: demo_writable)
  have b: "writable demo_world working slow_file" by (simp add: demo_writable)
  from upload_timeout_aborts[OF working_client working_store a b demo_stalls, of "[extra_file]"]
  obtain s' where r: "upload_files demo_world ([notes_v1] @ slow_file # [extra_file]) working =
                Some (Inl (HTTPException 408 (''Timeout importing '' @ filename slow_file)), s')"
    and dir: "\<forall>nm. case latest ([notes_v1] @ [slow_file]) nm of
                      Some d \<Rightarrow> (\<exists>t. map_of (uploads s') nm = Some (RegFile d t))
                    | None \<Rightarrow> map_of (uploads s') nm = map_of (uploads working) nm"
    and tr: "submitted (trace s') = submitted (trace working) @ map filename ([notes_v1] @ [slow_file])"
    by blast
  from dir have "case latest ([notes_v1] @ [slow_file]) ''extra.txt'' of
                      Some d \<Rightarrow> (\<exists>t. map_of (uploads s') ''extra.txt'' = Some (RegFile d t))
                    | None \<Rightarrow> map_of (uploads s') ''extra.txt'' = map_of (uploads working) ''extra.txt''"
    by blast
  then have x: "map_of (uploads s') ''extra.txt'' = None"
    by (simp add: notes_v1_def slow_file_def uploads_def demo_state)
  from dir have "case latest ([notes_v1] @ [slow_file]) ''notes.txt'' of
                      Some d \<Rightarrow> (\<exists>t. map_of (uploads s') ''notes.txt'' = Some (RegFile d t))
                    | None \<Rightarrow> map_of (uploads s') ''notes.txt'' = map_of (uploads working) ''notes.txt''"
    by blast
  then have y: "\<exists>t. map_of (uploads s') ''notes.txt'' = Some (RegFile ''first draft'' t)"
    by (simp add: notes_v1_def slow_file_def)
  have t: "submitted (trace s') = [''notes.txt'', ''slow.pdf'']"
    using tr by (simp add: notes_v1_def slow_file_def working_def)
  have r': "upload_files demo_world [notes_v1, slow_file, extra_file] working =
                Some (Inl (HTTPException 408 ''Timeout importing slow.pdf''), s')"
    using r by (simp add: slow_file_def)
  from r' x y t show ?thesis by blast
qed

text \<open>
  C2 as stated fails for an ingestion that is seen complete only after the deadline. The
  submission of \<open>late.pdf\<close> shows the operation not done, and the first status call,
  which shows it done, returns 102 time units after the submission: no reading within
  the 60 units shows the ingestion complete, and yet the upload is answered with success,
  because the loop tests the completion flag before the clock.
\<close>

theorem upload_timeout_aborts_counterexample:
  "submit demo_world (Client ''good-key'') (Store ''fileSearchStores/demo'') late_file =
     Inr late_op \<and>
   \<not> op_done late_op \<and>
   fetch_time demo_world (Client ''good-key'') 1 late_op = 102 \<and>
   map_option fst (upload_files demo_world [late_file] working) =
     Some (Inr (Uploaded 1 ''Successfully uploaded 1 file(s)''))"
  by (simp add: submit_def late_op_def demo_eval)




section \<open>The index handle\<close>

lemma upload_files_kept:
  assumes "upload_files w files s = Some (r, s')" and "file_search_store s = Some st"
  shows "file_search_store s' = Some st \<and> creations (trace s') = creations (trace s)"
proof (cases "files = []")
  case True
  with assms show ?thesis by (simp add: upload_files_def)
next
  case ne: False
  obtain r1 s1 where gc: "get_client w s = (r1, s1)" by (cases "get_client w s")
  note f1 = get_client_frame[OF gc]
  show ?thesis
  proof (cases r1)
    case (Inl e)
    with assms ne gc f1 show ?thesis by (simp add: upload_files_def)
  next
    case (Inr c)
    have st1: "file_search_store s1 = Some st" using f1 assms(2) by simp
    note gs = get_store_cached[OF st1, of w]
    from assms(1) upload_files_import[OF ne gc[unfolded Inr] gs]
    obtain r3 where imp: "import_files w c st files 0 s1 = Some (r3, s')"
      by (auto split: option.splits sum.splits prod.splits)
    with import_files_frame[OF imp] st1 f1 show ?thesis by simp
  qed
qed

lemma chat_kept:
  assumes "chat w msg s = (r, s')" and "file_search_store s = Some st"
  shows "file_search_store s' = Some st \<and> creations (trace s') = creations (trace s)"
proof -
  obtain r1 s1 where gc: "get_client w s = (r1, s1)" by (cases "get_client w s")
  note f1 = get_client_frame[OF gc]
  show ?thesis
  proof (cases r1)
    case (Inl e)
    with assms gc f1 show ?thesis by (simp add: chat_def)
  next
    case (Inr c)
    have st1: "file_search_store s1 = Some st" using f1 assms(2) by simp
    note gs = get_store_cached[OF st1, of w]
    from assms(1) gc Inr gs st1 f1 show ?thesis
      by (auto simp: chat_def Let_def creations_def split: sum.splits)
  qed
qed

lemma serve_kept:
  assumes "\<not> is_set_api_key r" and "file_search_store s = Some st"
    and "serve w r s = Some (res, s')"
  shows "file_search_store s' = Some st \<and> creations (trace s') = creations (trace s)"
proof (cases r)
  case (SetApiKey k)
  with assms show ?thesis by simp
next
  case (Upload files)
  with assms(3) have "upload_files w files s = Some (res, s')" by simp
  from upload_files_kept[OF this assms(2)] show ?thesis .
next
  case ListFiles
  with assms show ?thesis by auto
next
  case (Chat msg)
  with assms(3) have "chat w msg s = (res, s')" by simp
  from chat_kept[OF this assms(2)] show ?thesis .
qed

lemma run_kept:
  "\<forall>r\<in>set rs. \<not> is_set_api_key r \<Longrightarrow> file_search_store s = Some st \<Longrightarrow>
   run w rs s = Some s' \<Longrightarrow>
   file_search_store s' = Some st \<and> creations (trace s') = creations (trace s)"
proof (induction rs arbitrary: s)
  case Nil
  then show ?case by simp
next
  case (Cons r rs)
  from Cons.prems have a: "\<not> is_set_api_key r" and b: "\<forall>r\<in>set rs. \<not> is_set_api_key r"
    by simp_all
  from Cons.prems(3) obtain res s1 where sv: "serve w r s = Some (res, s1)"
    and rest: "run w rs s1 = Some s'"
    by (auto split: option.splits)
  note k = serve_kept[OF a Cons.prems(2) sv]
  from Cons.IH[OF b conjunct1[OF k] rest] k show ?case by simp
qed

lemma keyed_store:
  "get_file_search_store demo_world keyed = (Inr (Store ''fileSearchStores/demo''), working)"
  by (simp add: get_file_search_store_def get_client_def keyed_def working_def demo_world_def
                fresh_def)

lemma keyed_client:
  "get_client demo_world keyed = (Inr (Client ''good-key''), keyed\<lparr>client := Some (Client ''good-key'')\<rparr>)"
  by (simp add: get_client_def keyed_def demo_world_def fresh_def)

text \<open>
  C6 (as amended). While no handle is cached, let the client be available and let the
  creation request for the index named \<open>demo-file-search-store\<close> be answered with \<open>st\<close>.
  Then \<open>get_file_search_store\<close> issues exactly that one creation request, returns \<open>st\<close>
  and caches it. After any sequence of upload, list and chat requests that return, that
  is as long as \<open>set_api_key\<close> is not called, a further call returns the same \<open>st\<close> and
  leaves the state as it is, and the trace holds one creation request more than before
  the first call.
\<close>

theorem store_created_once:
  assumes none: "file_search_store s = None"
    and gc: "get_client w s = (Inr c, s1)"
    and cr: "create_store w c ''demo-file-search-store'' = Inr st"
    and later: "\<forall>r\<in>set rs. \<not> is_set_api_key r"
    and reach: "run w rs (snd (get_file_search_store w s)) = Some s3"
  shows "get_file_search_store w s =
           (Inr st, s1\<lparr>trace := trace s @ [CreateStore c ''demo-file-search-store''],
                       file_search_store := Some st\<rparr>) \<and>
         get_file_search_store w s3 = (Inr st, s3) \<and>
         creations (trace s3) = creations (trace s) + 1"
proof -
  have t1: "trace s1 = trace s" using get_client_frame[OF gc] by simp
  have first: "get_file_search_store w s =
           (Inr st, s1\<lparr>trace := trace s @ [CreateStore c ''demo-file-search-store''],
                       file_search_store := Some st\<rparr>)"
    using none gc cr by (simp add: get_file_search_store_def Let_def t1)
  define s2 where "s2 = s1\<lparr>trace := trace s @ [CreateStore c ''demo-file-search-store''],
                          file_search_store := Some st\<rparr>"
  have cached: "file_search_store s2 = Some st" by (simp add: s2_def)
  have made: "creations (trace s2) = creations (trace s) + 1"
    by (simp add: s2_def creations_def)
  from reach first have "run w rs s2 = Some s3" by (simp add: s2_def)
  note k = run_kept[OF later cached this]
  have "get_file_search_store w s3 = (Inr st, s3)"
    using k by (simp add: get_store_cached)
  with first k made show ?thesis by simp
qed

theorem store_created_once_witness:
  "\<exists>s3. run demo_world [Chat ''hello'', Upload [notes_v1], ListFiles, Chat ''again'']
          (snd (get_file_search_store demo_world keyed)) = Some s3 \<and>
        get_file_search_store demo_world s3 = (Inr (Store ''fileSearchStores/demo''), s3) \<and>
        creations (trace s3) = 1"
proof -
  have none: "file_search_store keyed = None" by (simp add: keyed_def fresh_def)
  have cr: "create_store demo_world (Client ''good-key'') ''demo-file-search-store'' =
              Inr (Store ''fileSearchStores/demo'')"
    by (simp add: demo_world_def)
  have later: "\<forall>r\<in>set [Chat ''hello'', Upload [notes_v1], ListFiles, Chat ''again''].
                 \<not> is_set_api_key r"
    by simp
  have "\<exists>s3. run demo_world [Chat ''hello'', Upload [notes_v1], ListFiles, Chat ''again'']
               (snd (get_file_search_store demo_world keyed)) = Some s3"
    by (simp add: keyed_store) (simp add: chat_def demo_eval)
  then obtain s3 where
    reach: "run demo_world [Chat ''hello'', Upload [notes_v1], ListFiles, Chat ''again'']
              (snd (get_file_search_store demo_world keyed)) = Some s3"
    by blast
  have "creations (trace keyed) = 0" by (simp add: creations_def keyed_def fresh_def)
  with store_created_once[OF none keyed_client cr later reach] reach show ?thesis by simp
qed

text \<open>
  C6 as stated fails when the same key is set again: the credential is unchanged, and
  yet \<open>set_api_key\<close> drops the handle, so the next call issues a second creation request
  under the same key.
\<close>

theorem store_created_once_counterexample:
  "fst (set_api_key demo_world ''good-key'' working) =
     Inr (ApiKeySet ''API key set successfully'') \<and>
   env_api_key (snd (set_api_key demo_world ''good-key'' working)) = env_api_key working \<and>
   trace (snd (get_file_search_store demo_world
                 (snd (set_api_key demo_world ''good-key'' working)))) =
     [CreateStore (Client ''good-key'') ''demo-file-search-store'',
      CreateStore (Client ''good-key'') ''demo-file-search-store'']"
  by (simp add: set_api_key_def get_file_search_store_def get_client_def demo_world_def
                working_def keyed_def fresh_def)

section \<open>The credential\<close>












end
